theory Spec2Isabelle
  imports Main "HOL-Library.Word"
begin

unbundle bit_operations_syntax

section \<open>Memory, pointers and undefined behaviour\<close>

text \<open>
  The library (\<^verbatim>\<open>parity.hpp\<close>, \<^verbatim>\<open>utility.hpp\<close>) works on raw byte pointers. A byte is an
  8-bit word, an address is a natural number, and the heap maps every allocated address
  to its byte; \<open>None\<close> is an address outside every buffer of the caller. A
  \<^verbatim>\<open>pointer<byte>\<close> that may be \<^verbatim>\<open>nullptr\<close> (an entry of \<^verbatim>\<open>slices\<close>) is an \<open>addr option\<close>.

  The C++ code has no error channel: \<^verbatim>\<open>decode\<close> returns \<^verbatim>\<open>void\<close>, \<^verbatim>\<open>encode_1\<close> and
  \<^verbatim>\<open>ida_properties\<close> return the properties. What the language leaves undefined (a
  division by zero, a \<^verbatim>\<open>memcpy\<close> through a null pointer, outside a buffer or between
  overlapping ranges) is a \<open>fault\<close> in the model, and the run stops there.
\<close>

type_synonym byte = "8 word"
type_synonym addr = nat
type_synonym heap = "addr \<Rightarrow> byte option"

datatype fault = DivisionByZero | NullDereference | OutOfBounds | OverlappingCopy

definition and_then :: "fault + 'a \<Rightarrow> ('a \<Rightarrow> fault + 'b) \<Rightarrow> fault + 'b" where
  "and_then m f = (case m of Inl e \<Rightarrow> Inl e | Inr x \<Rightarrow> f x)"

text \<open>The \<open>k\<close> bytes from \<open>p\<close> on all lie in buffers of the caller.\<close>

definition allocated :: "heap \<Rightarrow> addr \<Rightarrow> nat \<Rightarrow> bool" where
  "allocated h p k = list_all (\<lambda>a. h a \<noteq> None) [p..<p + k]"

text \<open>The \<open>k\<close> bytes at \<open>p\<close>, and the heap with the bytes \<open>bs\<close> written at \<open>p\<close>.\<close>

definition peek :: "heap \<Rightarrow> addr \<Rightarrow> nat \<Rightarrow> byte list" where
  "peek h p k = map (\<lambda>a. the (h a)) [p..<p + k]"

definition poke :: "heap \<Rightarrow> addr \<Rightarrow> byte list \<Rightarrow> heap" where
  "poke h p bs = (\<lambda>a. if p \<le> a \<and> a < p + length bs then Some (bs ! (a - p)) else h a)"

text \<open>\<^verbatim>\<open>std::memcpy(&local, p, k)\<close>: read \<open>k\<close> bytes at \<open>p\<close>.\<close>

definition load :: "heap \<Rightarrow> addr \<Rightarrow> nat \<Rightarrow> fault + byte list" where
  "load h p k = (if allocated h p k then Inr (peek h p k) else Inl OutOfBounds)"

text \<open>\<^verbatim>\<open>std::memcpy(p, &local, length bs)\<close>: write the bytes \<open>bs\<close> at \<open>p\<close>.\<close>

definition store :: "heap \<Rightarrow> addr \<Rightarrow> byte list \<Rightarrow> fault + heap" where
  "store h p bs = (if allocated h p (length bs) then Inr (poke h p bs) else Inl OutOfBounds)"

text \<open>\<^verbatim>\<open>std::memcpy(dst, src, k)\<close> between two ranges of the heap, which must not overlap.\<close>

definition memcpy :: "heap \<Rightarrow> addr \<Rightarrow> addr \<Rightarrow> nat \<Rightarrow> fault + heap" where
  "memcpy h dst src k =
     (if 0 < k \<and> dst < src + k \<and> src < dst + k then Inl OverlappingCopy
      else and_then (load h src k) (\<lambda>bs. store h dst bs))"

text \<open>
  \<^verbatim>\<open>size_t\<close> is taken to be 64 bits wide (the LP64 targets of \<^verbatim>\<open>test_1.cpp\<close>); unsigned
  arithmetic wraps modulo \<open>2 ^ 64\<close>. \<^verbatim>\<open>std::distance\<close> of two pointers is a signed
  \<^verbatim>\<open>ptrdiff_t\<close>, converted to \<^verbatim>\<open>size_t\<close> where the code stores or compares it as one.
\<close>

definition SIZE_MOD :: nat where
  "SIZE_MOD = 2 ^ 64"

definition distance :: "addr \<Rightarrow> addr \<Rightarrow> int" where
  "distance p q = int q - int p"

definition to_size_t :: "int \<Rightarrow> nat" where
  "to_size_t z = nat (z mod int SIZE_MOD)"

section \<open>utility.hpp\<close>

text \<open>
  A value of the chunk type \<^verbatim>\<open>UIntT\<close> is modelled by its object representation: the
  \<open>W = sizeof(UIntT)\<close> bytes that \<^verbatim>\<open>memcpy\<close> moves. \<^verbatim>\<open>from_bytes_cast\<close> and
  \<^verbatim>\<open>to_bytes_cast\<close> copy exactly these bytes, in whatever byte order the machine has.
\<close>

type_synonym chunk = "byte list"

definition from_bytes_cast :: "nat \<Rightarrow> heap \<Rightarrow> addr \<Rightarrow> fault + chunk" where
  "from_bytes_cast W h source = load h source W"

text \<open>
  \<^verbatim>\<open>from_bytes_cast_padded\<close>: a local array of \<open>W\<close> zero bytes, the first \<open>sz\<close> of them
  overwritten from \<open>src\<close>. With \<open>sz > W\<close> the \<^verbatim>\<open>memcpy\<close> runs over the local array.
\<close>

definition from_bytes_cast_padded :: "nat \<Rightarrow> heap \<Rightarrow> addr \<Rightarrow> nat \<Rightarrow> fault + chunk" where
  "from_bytes_cast_padded W h src sz =
     (if W < sz then Inl OutOfBounds
      else and_then (load h src sz) (\<lambda>bs. Inr (bs @ replicate (W - sz) 0)))"

definition to_bytes_cast :: "chunk \<Rightarrow> heap \<Rightarrow> addr \<Rightarrow> fault + heap" where
  "to_bytes_cast source h target = store h target source"

text \<open>
  \<^verbatim>\<open>parity ^= chunk\<close>: the exclusive or of two unsigned values acts bit by bit, so on the
  object representations it is the exclusive or of the bytes at equal positions.
  \<^verbatim>\<open>UIntT parity = {}\<close> is the all-zero representation.
\<close>

definition xor_chunk :: "chunk \<Rightarrow> chunk \<Rightarrow> chunk" where
  "xor_chunk a b = map2 (XOR) a b"

definition zero_chunk :: "nat \<Rightarrow> chunk" where
  "zero_chunk W = replicate W 0"

section \<open>parity.hpp\<close>

subsection \<open>Loops and the slice-pointer array\<close>

text \<open>\<^verbatim>\<open>for (size_t i = lo; i < hi; ++i) body\<close>, stopping at the first fault.\<close>

primrec for_each :: "nat list \<Rightarrow> (nat \<Rightarrow> 's \<Rightarrow> fault + 's) \<Rightarrow> 's \<Rightarrow> fault + 's" where
  "for_each [] body s = Inr s"
| "for_each (i # is) body s =
     (case body i s of Inl e \<Rightarrow> Inl e | Inr s' \<Rightarrow> for_each is body s')"

definition for_loop :: "nat \<Rightarrow> nat \<Rightarrow> (nat \<Rightarrow> 's \<Rightarrow> fault + 's) \<Rightarrow> 's \<Rightarrow> fault + 's" where
  "for_loop lo hi body s = for_each [lo..<hi] body s"

text \<open>
  The caller's array \<^verbatim>\<open>slices\<close> of \<open>n + 1\<close> byte pointers is a list kept apart from the
  byte heap. \<open>slice_ptr\<close> is the pointer \<^verbatim>\<open>slices[i]\<close> at the moment a \<^verbatim>\<open>memcpy\<close> goes
  through it.
\<close>

definition slice_ptr :: "addr option list \<Rightarrow> nat \<Rightarrow> fault + addr" where
  "slice_ptr sl i =
     (if i < length sl
      then (case sl ! i of None \<Rightarrow> Inl NullDereference | Some p \<Rightarrow> Inr p)
      else Inl OutOfBounds)"

subsection \<open>ida_properties\<close>

record ida_properties_t =
  full_rounds :: nat
  partial_round :: bool

definition num_chunks :: "ida_properties_t \<Rightarrow> nat" where
  "num_chunks p = (full_rounds p + (if partial_round p then 1 else 0)) mod SIZE_MOD"

definition ida_properties :: "nat \<Rightarrow> addr \<Rightarrow> addr \<Rightarrow> nat \<Rightarrow> fault + ida_properties_t" where
  "ida_properties W in_begin in_end n =
     (let s = to_size_t (distance in_begin in_end);
          chunk_size = W;
          round_size = (n * chunk_size) mod SIZE_MOD
      in if round_size = 0 then Inl DivisionByZero
         else Inr \<lparr>full_rounds = s div round_size,
                   partial_round = (s mod round_size \<noteq> 0)\<rparr>)"

subsection \<open>encode_1\<close>

text \<open>
  The state of the loops of \<^verbatim>\<open>encode_1\<close>: the heap, the cursor \<^verbatim>\<open>in_begin\<close>, the array
  \<^verbatim>\<open>slices\<close> and, inside a round, the accumulator \<^verbatim>\<open>parity\<close>.
\<close>

type_synonym enc_state = "heap \<times> addr \<times> addr option list"

text \<open>Body of the inner loop of a full round (lines 126-138).\<close>

definition encode_chunk ::
  "nat \<Rightarrow> nat \<Rightarrow> enc_state \<times> chunk \<Rightarrow> fault + enc_state \<times> chunk" where
  "encode_chunk W i = (\<lambda>((h, in_begin, sl), parity).
     and_then (from_bytes_cast W h in_begin) (\<lambda>chunk.
     and_then (slice_ptr sl i) (\<lambda>p.
     and_then (to_bytes_cast chunk h p) (\<lambda>h'.
     Inr ((h', in_begin + W, sl[i := Some (p + W)]), xor_chunk parity chunk)))))"

text \<open>Body of the inner loop of the partial round (lines 150-161).\<close>

definition encode_chunk_padded ::
  "nat \<Rightarrow> addr \<Rightarrow> nat \<Rightarrow> enc_state \<times> chunk \<Rightarrow> fault + enc_state \<times> chunk" where
  "encode_chunk_padded W in_end i = (\<lambda>((h, in_begin, sl), parity).
     let sz = distance in_begin in_end;
         size_chunk = min (to_size_t sz) W
     in and_then (from_bytes_cast_padded W h in_begin size_chunk) (\<lambda>chunk.
        and_then (slice_ptr sl i) (\<lambda>p.
        and_then (to_bytes_cast chunk h p) (\<lambda>h'.
        Inr ((h', in_begin + size_chunk, sl[i := Some (p + W)]), xor_chunk parity chunk)))))"

text \<open>The parity chunk goes to \<^verbatim>\<open>slices[n]\<close> (lines 142-143 and 166-167).\<close>

definition write_parity :: "nat \<Rightarrow> nat \<Rightarrow> enc_state \<times> chunk \<Rightarrow> fault + enc_state" where
  "write_parity W n = (\<lambda>((h, in_begin, sl), parity).
     and_then (slice_ptr sl n) (\<lambda>p.
     and_then (to_bytes_cast parity h p) (\<lambda>h'.
     Inr (h', in_begin, sl[n := Some (p + W)]))))"

definition encode_full_round :: "nat \<Rightarrow> nat \<Rightarrow> enc_state \<Rightarrow> fault + enc_state" where
  "encode_full_round W n st =
     and_then (for_loop 0 n (encode_chunk W) (st, zero_chunk W)) (write_parity W n)"

definition encode_partial_round :: "nat \<Rightarrow> addr \<Rightarrow> nat \<Rightarrow> enc_state \<Rightarrow> fault + enc_state" where
  "encode_partial_round W in_end n st =
     and_then (for_loop 0 n (encode_chunk_padded W in_end) (st, zero_chunk W)) (write_parity W n)"

text \<open>
  \<^verbatim>\<open>encode_1<UIntT>(in_begin, in_end, slices, n)\<close> with \<open>W = sizeof(UIntT)\<close>. It returns
  the properties; the heap and the array \<^verbatim>\<open>slices\<close>, which it changes in place, are
  returned with them.
\<close>

definition encode_1 ::
  "nat \<Rightarrow> heap \<Rightarrow> addr \<Rightarrow> addr \<Rightarrow> addr option list \<Rightarrow> nat
     \<Rightarrow> fault + ida_properties_t \<times> heap \<times> addr option list" where
  "encode_1 W h in_begin in_end sl n =
     and_then (ida_properties W in_begin in_end n) (\<lambda>p.
     and_then (for_loop 0 (full_rounds p) (\<lambda>round. encode_full_round W n) (h, in_begin, sl))
       (\<lambda>st.
     and_then (if partial_round p then encode_partial_round W in_end n st else Inr st)
       (\<lambda>(h', in_begin', sl'). Inr (p, h', sl'))))"

subsection \<open>decode\<close>

text \<open>
  \<^verbatim>\<open>std::find(slices, slices + (n + 1), nullptr)\<close> and the \<^verbatim>\<open>std::distance\<close> to its
  result: the index of the first null entry among the first \<open>n + 1\<close> (a \<^verbatim>\<open>size_t\<close>
  sum), or their number when none is null. The scan leaves the array when the array is
  shorter than that and holds no null entry.
\<close>

fun find_null :: "addr option list \<Rightarrow> nat" where
  "find_null [] = 0"
| "find_null (None # ps) = 0"
| "find_null (Some p # ps) = Suc (find_null ps)"

definition missing_index :: "addr option list \<Rightarrow> nat \<Rightarrow> fault + nat" where
  "missing_index sl n =
     (let count = (n + 1) mod SIZE_MOD;
          missing_idx = find_null (take count sl)
      in if missing_idx < length sl \<or> count \<le> length sl then Inr missing_idx
         else Inl OutOfBounds)"

text \<open>The state of the loops of \<^verbatim>\<open>decode\<close>: the heap, the cursor \<^verbatim>\<open>to\<close>, the array \<^verbatim>\<open>slices\<close>.\<close>

type_synonym dec_state = "heap \<times> addr \<times> addr option list"

text \<open>Body of the inner loop of the pass-through case (lines 193-195).\<close>

definition copy_chunk :: "nat \<Rightarrow> nat \<Rightarrow> dec_state \<Rightarrow> fault + dec_state" where
  "copy_chunk W i = (\<lambda>(h, to, sl).
     and_then (slice_ptr sl i) (\<lambda>p.
     and_then (memcpy h to p W) (\<lambda>h'.
     Inr (h', to + W, sl[i := Some (p + W)]))))"

text \<open>Body of both inner loops of the recovery case (lines 211-215 and 226-230).\<close>

definition recover_chunk ::
  "nat \<Rightarrow> nat \<Rightarrow> dec_state \<times> chunk \<Rightarrow> fault + dec_state \<times> chunk" where
  "recover_chunk W i = (\<lambda>((h, to, sl), recovery).
     and_then (slice_ptr sl i) (\<lambda>p.
     and_then (from_bytes_cast W h p) (\<lambda>chunk.
     and_then (to_bytes_cast chunk h to) (\<lambda>h'.
     Inr ((h', to + W, sl[i := Some (p + W)]), xor_chunk recovery chunk)))))"

text \<open>One round of the recovery case (lines 204-234).\<close>

definition recover_round :: "nat \<Rightarrow> nat \<Rightarrow> nat \<Rightarrow> dec_state \<Rightarrow> fault + dec_state" where
  "recover_round W n missing_idx = (\<lambda>(h, to, sl).
     and_then (slice_ptr sl n) (\<lambda>pp.
     and_then (from_bytes_cast W h pp) (\<lambda>recovery.
     and_then (for_loop 0 missing_idx (recover_chunk W)
                 ((h, to, sl[n := Some (pp + W)]), recovery)) (\<lambda>((h1, to1, sl1), recovery1).
     let recovery_to = to1 in
     and_then (for_loop (missing_idx + 1) n (recover_chunk W)
                 ((h1, to1 + W, sl1), recovery1)) (\<lambda>((h2, to2, sl2), recovery2).
     and_then (to_bytes_cast recovery2 h2 recovery_to) (\<lambda>h3.
     Inr (h3, to2, sl2)))))))"

text \<open>
  \<^verbatim>\<open>decode<UIntT>(slices, n, to, chunks)\<close> with \<open>W = sizeof(UIntT)\<close>; it returns nothing,
  the model returns the heap and the array \<^verbatim>\<open>slices\<close> it leaves behind.
\<close>

definition decode ::
  "nat \<Rightarrow> heap \<Rightarrow> addr option list \<Rightarrow> nat \<Rightarrow> addr \<Rightarrow> nat \<Rightarrow> fault + heap \<times> addr option list" where
  "decode W h sl n to chunks =
     and_then (missing_index sl n) (\<lambda>missing_idx.
     and_then
       (if n \<le> missing_idx
        then for_loop 0 chunks (\<lambda>round. for_loop 0 n (copy_chunk W)) (h, to, sl)
        else for_loop 0 chunks (\<lambda>round. recover_round W n missing_idx) (h, to, sl))
       (\<lambda>(h', to', sl'). Inr (h', sl')))"

section \<open>What the buffers must be, and what encoding puts into them\<close>

text \<open>Two byte ranges that share no address.\<close>

definition apart :: "addr \<Rightarrow> nat \<Rightarrow> addr \<Rightarrow> nat \<Rightarrow> bool" where
  "apart p k q l \<longleftrightarrow> k = 0 \<or> l = 0 \<or> p + k \<le> q \<or> q + l \<le> p"

text \<open>
  The buffers the caller hands to \<^verbatim>\<open>encode_1\<close>: \<open>s\<close> readable input bytes at
  \<open>in_begin\<close> and, at each of the \<open>n + 1\<close> pointers \<open>ps\<close>, a slice of \<open>L\<close> bytes; no
  slice shares a byte with another slice or with the input.
\<close>

definition encode_buffers ::
  "nat \<Rightarrow> addr list \<Rightarrow> nat \<Rightarrow> heap \<Rightarrow> addr \<Rightarrow> nat \<Rightarrow> bool" where
  "encode_buffers n ps L h in_begin s \<longleftrightarrow>
     length ps = n + 1 \<and> allocated h in_begin s \<and>
     (\<forall>k\<le>n. allocated h (ps ! k) L \<and> apart (ps ! k) L in_begin s) \<and>
     (\<forall>k\<le>n. \<forall>l\<le>n. k \<noteq> l \<longrightarrow> apart (ps ! k) L (ps ! l) L)"

text \<open>The input followed by zero bytes.\<close>

definition padded :: "byte list \<Rightarrow> nat \<Rightarrow> byte" where
  "padded bs x = (if x < length bs then bs ! x else 0)"

text \<open>
  Byte \<open>j\<close> of the chunk that round \<open>r\<close> gives to data slice \<open>k\<close>: the input is dealt
  out chunk by chunk, \<open>n\<close> chunks of \<open>W\<close> bytes a round.
\<close>

definition data_byte :: "nat \<Rightarrow> nat \<Rightarrow> byte list \<Rightarrow> nat \<Rightarrow> nat \<Rightarrow> nat \<Rightarrow> byte" where
  "data_byte W n bs r k j = padded bs ((r * n + k) * W + j)"

text \<open>The exclusive or of \<open>f 0\<close>, ..., \<open>f (n - 1)\<close>.\<close>

primrec xor_upto :: "(nat \<Rightarrow> byte) \<Rightarrow> nat \<Rightarrow> byte" where
  "xor_upto f 0 = 0"
| "xor_upto f (Suc n) = xor_upto f n XOR f n"

definition parity_byte :: "nat \<Rightarrow> nat \<Rightarrow> byte list \<Rightarrow> nat \<Rightarrow> nat \<Rightarrow> byte" where
  "parity_byte W n bs r j = xor_upto (\<lambda>k. data_byte W n bs r k j) n"

text \<open>
  The heap while \<^verbatim>\<open>encode_1\<close> runs, before it handles slice \<open>i\<close> in round \<open>r\<close>: no
  allocation has changed, no byte outside the slices has changed, and the chunks
  written so far hold the bytes of the input \<open>bs\<close> and their parity.
\<close>

definition enc_heap ::
  "nat \<Rightarrow> nat \<Rightarrow> addr list \<Rightarrow> nat \<Rightarrow> byte list \<Rightarrow> heap \<Rightarrow> nat \<Rightarrow> nat \<Rightarrow> heap \<Rightarrow> bool" where
  "enc_heap W n ps L bs h0 r i h \<longleftrightarrow>
     (\<forall>a. h a = None \<longleftrightarrow> h0 a = None) \<and>
     (\<forall>a. (\<forall>k\<le>n. a < ps ! k \<or> ps ! k + L \<le> a) \<longrightarrow> h a = h0 a) \<and>
     (\<forall>r' k j. k < n \<and> j < W \<and> (r' < r \<or> r' = r \<and> k < i) \<longrightarrow>
        h (ps ! k + r' * W + j) = Some (data_byte W n bs r' k j)) \<and>
     (\<forall>r' j. r' < r \<and> j < W \<longrightarrow>
        h (ps ! n + r' * W + j) = Some (parity_byte W n bs r' j))"

text \<open>The array \<^verbatim>\<open>slices\<close> at that moment: each pointer stands behind its last chunk.\<close>

definition enc_slices :: "nat \<Rightarrow> nat \<Rightarrow> addr list \<Rightarrow> nat \<Rightarrow> nat \<Rightarrow> addr option list \<Rightarrow> bool" where
  "enc_slices W n ps r i sl \<longleftrightarrow>
     length sl = n + 1 \<and>
     (\<forall>k\<le>n. sl ! k = Some (ps ! k + (if k < i then r + 1 else r) * W))"

text \<open>The accumulator \<^verbatim>\<open>parity\<close> at that moment.\<close>

definition enc_parity :: "nat \<Rightarrow> nat \<Rightarrow> byte list \<Rightarrow> nat \<Rightarrow> nat \<Rightarrow> chunk \<Rightarrow> bool" where
  "enc_parity W n bs r i parity \<longleftrightarrow>
     length parity = W \<and>
     (\<forall>j<W. parity ! j = xor_upto (\<lambda>k. data_byte W n bs r k j) i)"

text \<open>
  The invariant of the inner loop of a round of \<^verbatim>\<open>encode_1\<close> (before slice \<open>i\<close> of round
  \<open>r\<close>) and of its loop over the rounds (before round \<open>r\<close>). The cursor \<^verbatim>\<open>in_begin\<close>
  has passed the chunks dealt out so far, and never the end of the input.
\<close>

definition enc_inner ::
  "nat \<Rightarrow> nat \<Rightarrow> addr list \<Rightarrow> nat \<Rightarrow> byte list \<Rightarrow> heap \<Rightarrow> addr \<Rightarrow> nat \<Rightarrow> nat
     \<Rightarrow> enc_state \<times> chunk \<Rightarrow> bool" where
  "enc_inner W n ps L bs h0 in_begin0 r i = (\<lambda>((h, in_begin, sl), parity).
     in_begin = in_begin0 + min (length bs) ((r * n + i) * W) \<and>
     enc_heap W n ps L bs h0 r i h \<and> enc_slices W n ps r i sl \<and>
     enc_parity W n bs r i parity)"

definition enc_outer ::
  "nat \<Rightarrow> nat \<Rightarrow> addr list \<Rightarrow> nat \<Rightarrow> byte list \<Rightarrow> heap \<Rightarrow> addr \<Rightarrow> nat
     \<Rightarrow> enc_state \<Rightarrow> bool" where
  "enc_outer W n ps L bs h0 in_begin0 r = (\<lambda>(h, in_begin, sl).
     in_begin = in_begin0 + min (length bs) (r * n * W) \<and>
     enc_heap W n ps L bs h0 r 0 h \<and> enc_slices W n ps r 0 sl)"

section \<open>What decoding reads and what it writes\<close>

text \<open>
  The buffers the caller hands to \<^verbatim>\<open>decode\<close>, \<open>m\<close> being the index of the absent slice
  (\<open>n + 1\<close> when none is absent): room for \<open>C\<close> rounds of \<open>n\<close> chunks at \<open>to\<close>, and
  \<open>C\<close> chunks at each pointer \<open>qs ! k\<close> that \<^verbatim>\<open>decode\<close> reads, away from the output.
  These are the data slices but slice \<open>m\<close>, and the parity slice when a data slice is
  absent (\<open>m < n\<close>).
\<close>

definition decode_buffers ::
  "nat \<Rightarrow> nat \<Rightarrow> nat \<Rightarrow> addr list \<Rightarrow> nat \<Rightarrow> heap \<Rightarrow> addr \<Rightarrow> bool" where
  "decode_buffers W n m qs C h to \<longleftrightarrow>
     allocated h to (C * n * W) \<and>
     (\<forall>k\<le>n. k \<noteq> m \<and> (k < n \<or> m < n) \<longrightarrow>
        allocated h (qs ! k) (C * W) \<and> apart (qs ! k) (C * W) to (C * n * W))"

text \<open>The array \<^verbatim>\<open>slices\<close> for these pointers, with the entry \<open>m\<close> null.\<close>

definition slices_missing :: "nat \<Rightarrow> nat \<Rightarrow> addr list \<Rightarrow> addr option list \<Rightarrow> bool" where
  "slices_missing n m qs sl \<longleftrightarrow>
     length sl = n + 1 \<and> (\<forall>k\<le>n. sl ! k = (if k = m then None else Some (qs ! k)))"

text \<open>Byte \<open>j\<close> of chunk \<open>r\<close> of the slice at \<open>qs ! k\<close>.\<close>

definition slice_byte :: "nat \<Rightarrow> addr list \<Rightarrow> heap \<Rightarrow> nat \<Rightarrow> nat \<Rightarrow> nat \<Rightarrow> byte" where
  "slice_byte W qs h r k j = the (h (qs ! k + r * W + j))"

text \<open>
  The byte that the recovery case computes for the absent slice \<open>m\<close>: the parity byte,
  with the bytes of the other data slices cancelled out of it.
\<close>

definition recovered_upto ::
  "nat \<Rightarrow> nat \<Rightarrow> nat \<Rightarrow> addr list \<Rightarrow> heap \<Rightarrow> nat \<Rightarrow> nat \<Rightarrow> nat \<Rightarrow> byte" where
  "recovered_upto W n m qs h r i j =
     slice_byte W qs h r n j XOR xor_upto (\<lambda>k. if k = m then 0 else slice_byte W qs h r k j) i"

text \<open>The byte that \<^verbatim>\<open>decode\<close> writes for slot \<open>k\<close> of round \<open>r\<close>.\<close>

definition decoded_byte ::
  "nat \<Rightarrow> nat \<Rightarrow> nat \<Rightarrow> addr list \<Rightarrow> heap \<Rightarrow> nat \<Rightarrow> nat \<Rightarrow> nat \<Rightarrow> byte" where
  "decoded_byte W n m qs h r k j =
     (if k = m then recovered_upto W n m qs h r n j else slice_byte W qs h r k j)"

text \<open>
  The heap while \<^verbatim>\<open>decode\<close> runs, before it handles slot \<open>i\<close> of round \<open>r\<close>: only the
  output has changed; the slots of earlier rounds are written, and of this round the
  slots before \<open>i\<close> except the one kept for the absent slice.
\<close>

definition dec_heap ::
  "nat \<Rightarrow> nat \<Rightarrow> nat \<Rightarrow> addr list \<Rightarrow> nat \<Rightarrow> heap \<Rightarrow> addr \<Rightarrow> nat \<Rightarrow> nat \<Rightarrow> heap \<Rightarrow> bool" where
  "dec_heap W n m qs C h0 to0 r i h \<longleftrightarrow>
     (\<forall>a. h a = None \<longleftrightarrow> h0 a = None) \<and>
     (\<forall>a. a < to0 \<or> to0 + C * n * W \<le> a \<longrightarrow> h a = h0 a) \<and>
     (\<forall>r' k j. k < n \<and> j < W \<and> (r' < r \<or> r' = r \<and> k < i \<and> k \<noteq> m) \<longrightarrow>
        h (to0 + (r' * n + k) * W + j) = Some (decoded_byte W n m qs h0 r' k j))"

text \<open>
  The array \<^verbatim>\<open>slices\<close> at that moment; the parity pointer has passed \<open>pr\<close> chunks when a
  data slice is absent, and is never touched otherwise.
\<close>

definition dec_slices ::
  "nat \<Rightarrow> nat \<Rightarrow> nat \<Rightarrow> addr list \<Rightarrow> nat \<Rightarrow> nat \<Rightarrow> nat \<Rightarrow> addr option list \<Rightarrow> bool" where
  "dec_slices W n m qs r i pr sl \<longleftrightarrow>
     length sl = n + 1 \<and>
     (\<forall>k<n. sl ! k = (if k = m then None
                       else Some (qs ! k + (if k < i then r + 1 else r) * W))) \<and>
     sl ! n = (if m = n then None else Some (qs ! n + (if m < n then pr else 0) * W))"

definition dec_recovery ::
  "nat \<Rightarrow> nat \<Rightarrow> nat \<Rightarrow> addr list \<Rightarrow> heap \<Rightarrow> nat \<Rightarrow> nat \<Rightarrow> chunk \<Rightarrow> bool" where
  "dec_recovery W n m qs h0 r i recovery \<longleftrightarrow>
     length recovery = W \<and> (\<forall>j<W. recovery ! j = recovered_upto W n m qs h0 r i j)"

text \<open>
  The invariants of the loops of \<^verbatim>\<open>decode\<close>: of an inner loop of the recovery case, of
  the inner loop of the pass-through case, and of the loop over the rounds.
\<close>

definition dec_inner ::
  "nat \<Rightarrow> nat \<Rightarrow> nat \<Rightarrow> addr list \<Rightarrow> nat \<Rightarrow> heap \<Rightarrow> addr \<Rightarrow> nat \<Rightarrow> nat
     \<Rightarrow> dec_state \<times> chunk \<Rightarrow> bool" where
  "dec_inner W n m qs C h0 to0 r i = (\<lambda>((h, to, sl), recovery).
     to = to0 + (r * n + i) * W \<and>
     dec_heap W n m qs C h0 to0 r i h \<and> dec_slices W n m qs r i (r + 1) sl \<and>
     dec_recovery W n m qs h0 r i recovery)"

definition copy_inner ::
  "nat \<Rightarrow> nat \<Rightarrow> nat \<Rightarrow> addr list \<Rightarrow> nat \<Rightarrow> heap \<Rightarrow> addr \<Rightarrow> nat \<Rightarrow> nat \<Rightarrow> dec_state \<Rightarrow> bool" where
  "copy_inner W n m qs C h0 to0 r i = (\<lambda>(h, to, sl).
     to = to0 + (r * n + i) * W \<and>
     dec_heap W n m qs C h0 to0 r i h \<and> dec_slices W n m qs r i r sl)"

definition dec_outer ::
  "nat \<Rightarrow> nat \<Rightarrow> nat \<Rightarrow> addr list \<Rightarrow> nat \<Rightarrow> heap \<Rightarrow> addr \<Rightarrow> nat \<Rightarrow> dec_state \<Rightarrow> bool" where
  "dec_outer W n m qs C h0 to0 r = copy_inner W n m qs C h0 to0 r 0"

section \<open>A concrete heap\<close>

text \<open>The heap that holds one buffer, the bytes \<open>bs\<close> at address \<open>0\<close>, and nothing else.\<close>

definition heap_of :: "byte list \<Rightarrow> heap" where
  "heap_of bs = (\<lambda>a. if a < length bs then Some (bs ! a) else None)"

text \<open>
  The scenario of the specification: the five input bytes \<open>1, ..., 5\<close> at address \<open>0\<close>,
  and room for the slices and the output behind them, in a buffer of 50 bytes.
\<close>

definition scenario :: heap where
  "scenario = heap_of ([1, 2, 3, 4, 5] @ replicate 45 0)"

section \<open>The pointers a call leaves in the array\<close>

text \<open>
  The array \<open>sl'\<close> is the array \<open>sl\<close> with the entries at the indices \<open>touched\<close> moved on
  by \<open>d\<close> bytes; a null entry stays null.
\<close>

definition advanced ::
  "nat \<Rightarrow> (nat \<Rightarrow> bool) \<Rightarrow> addr option list \<Rightarrow> addr option list \<Rightarrow> bool" where
  "advanced d touched sl sl' \<longleftrightarrow>
     length sl' = length sl \<and>
     (\<forall>k<length sl. sl' ! k = (if touched k then map_option (\<lambda>q. q + d) (sl ! k) else sl ! k))"

text \<open>The array \<^verbatim>\<open>slices\<close> in a state of a loop over the rounds, and of an inner loop.\<close>

definition outer_slices :: "enc_state \<Rightarrow> addr option list" where
  "outer_slices = (\<lambda>(h, cursor, sl). sl)"

definition inner_slices :: "enc_state \<times> chunk \<Rightarrow> addr option list" where
  "inner_slices = (\<lambda>((h, cursor, sl), acc). sl)"

section \<open>Proof rules\<close>

subsection \<open>Sequencing and loops\<close>

lemma and_then_Inr [simp]: "and_then (Inr x) f = f x"
  by (simp add: and_then_def)

lemma and_then_Inl [simp]: "and_then (Inl e) f = Inl e"
  by (simp add: and_then_def)

lemma and_then_eq_Inr:
  "and_then m f = Inr y \<longleftrightarrow> (\<exists>x. m = Inr x \<and> f x = Inr y)"
  by (cases m) simp_all

lemma for_loop_unfold:
  "for_loop lo hi body s =
     (if lo < hi then and_then (body lo s) (for_loop (Suc lo) hi body) else Inr s)"
  by (simp add: for_loop_def upt_conv_Cons and_then_def split: sum.splits)

lemma for_loop_empty [simp]: "hi \<le> lo \<Longrightarrow> for_loop lo hi body s = Inr s"
  by (simp add: for_loop_def)

text \<open>Total correctness of a loop from an invariant that every iteration re-establishes.\<close>

lemma for_loop_total_from:
  assumes step: "\<And>i s. lo0 \<le> i \<Longrightarrow> i < hi \<Longrightarrow> I i s \<Longrightarrow> \<exists>s'. body i s = Inr s' \<and> I (Suc i) s'"
  shows "lo0 \<le> lo \<Longrightarrow> lo \<le> hi \<Longrightarrow> I lo s \<Longrightarrow> \<exists>s'. for_loop lo hi body s = Inr s' \<and> I hi s'"
proof (induction "hi - lo" arbitrary: lo s)
  case 0
  then show ?case by simp
next
  case (Suc d)
  then have lt: "lo < hi" by simp
  from step [OF Suc.prems(1) lt Suc.prems(3)]
  obtain s1 where s1: "body lo s = Inr s1" "I (Suc lo) s1"
    by auto
  from Suc.hyps(2) have "d = hi - Suc lo" by simp
  from Suc.hyps(1) [OF this _ _ s1(2)] lt Suc.prems(1)
  obtain s' where "for_loop (Suc lo) hi body s1 = Inr s'" "I hi s'"
    by auto
  with s1(1) lt show ?case
    by (subst for_loop_unfold) simp
qed

lemma for_loop_total:
  assumes "lo \<le> hi" and "I lo s"
    and "\<And>i s. lo \<le> i \<Longrightarrow> i < hi \<Longrightarrow> I i s \<Longrightarrow> \<exists>s'. body i s = Inr s' \<and> I (Suc i) s'"
  shows "\<exists>s'. for_loop lo hi body s = Inr s' \<and> I hi s'"
  using for_loop_total_from [of lo hi I body lo s] assms by blast

text \<open>Partial correctness: what holds of the state a loop returns, when it returns.\<close>

lemma for_loop_partial_from:
  assumes step: "\<And>i s s'. lo0 \<le> i \<Longrightarrow> i < hi \<Longrightarrow> I i s \<Longrightarrow> body i s = Inr s' \<Longrightarrow> I (Suc i) s'"
  shows "for_loop lo hi body s = Inr s' \<Longrightarrow> lo0 \<le> lo \<Longrightarrow> lo \<le> hi \<Longrightarrow> I lo s \<Longrightarrow> I hi s'"
proof (induction "hi - lo" arbitrary: lo s)
  case 0
  then show ?case by simp
next
  case (Suc d)
  then have lt: "lo < hi" by simp
  from Suc.prems(1) lt obtain s1 where s1: "body lo s = Inr s1"
    and rest: "for_loop (Suc lo) hi body s1 = Inr s'"
    by (subst (asm) for_loop_unfold) (auto simp: and_then_eq_Inr)
  from Suc.hyps(2) have d: "d = hi - Suc lo" by simp
  have "I (Suc lo) s1"
    using step [OF Suc.prems(2) lt Suc.prems(4) s1] .
  from Suc.hyps(1) [OF d rest _ _ this] lt Suc.prems(2) show ?case by simp
qed

lemma for_loop_partial:
  assumes "for_loop lo hi body s = Inr s'" and "lo \<le> hi" and "I lo s"
    and "\<And>i s s'. lo \<le> i \<Longrightarrow> i < hi \<Longrightarrow> I i s \<Longrightarrow> body i s = Inr s' \<Longrightarrow> I (Suc i) s'"
  shows "I hi s'"
  using for_loop_partial_from [of lo hi I body lo s s'] assms by blast

lemma and_then_eq_Inl:
  "and_then m f = Inl e \<longleftrightarrow> m = Inl e \<or> (\<exists>x. m = Inr x \<and> f x = Inl e)"
  by (cases m) simp_all

text \<open>A loop that faults does so in one of its iterations.\<close>

lemma for_loop_fault:
  "for_loop lo hi body s = Inl e \<Longrightarrow> \<exists>i s1. lo \<le> i \<and> i < hi \<and> body i s1 = Inl e"
proof (induction "hi - lo" arbitrary: lo s)
  case 0
  then show ?case by simp
next
  case (Suc d)
  then have lt: "lo < hi" by simp
  from Suc.prems lt
  consider "body lo s = Inl e"
    | s1 where "body lo s = Inr s1" "for_loop (Suc lo) hi body s1 = Inl e"
    by (subst (asm) for_loop_unfold) (auto simp: and_then_eq_Inl)
  then show ?case
  proof cases
    case 1
    with lt show ?thesis by blast
  next
    case 2
    from Suc.hyps(2) have "d = hi - Suc lo" by simp
    from Suc.hyps(1) [OF this 2(2)] show ?thesis
      by (meson Suc_leD)
  qed
qed

subsection \<open>The slice-pointer array\<close>

lemma slice_ptr_eq_Inr: "slice_ptr sl i = Inr p \<longleftrightarrow> i < length sl \<and> sl ! i = Some p"
  by (auto simp: slice_ptr_def split: option.splits)

lemma slice_ptr_fault: "slice_ptr sl i = Inl e \<Longrightarrow> e = OutOfBounds \<or> e = NullDereference"
  by (auto simp: slice_ptr_def split: if_splits option.splits)

lemma find_null_le: "i < length xs \<Longrightarrow> xs ! i = None \<Longrightarrow> find_null xs \<le> i"
proof (induction xs arbitrary: i rule: find_null.induct)
  case 1
  then show ?case by simp
next
  case (2 ps)
  then show ?case by simp
next
  case (3 p ps)
  then show ?case by (cases i) auto
qed

lemma find_null_le_length: "find_null xs \<le> length xs"
  by (induction xs rule: find_null.induct) auto

lemma find_null_present: "i < find_null xs \<Longrightarrow> xs ! i \<noteq> None"
proof (induction xs arbitrary: i rule: find_null.induct)
  case (3 p ps)
  then show ?case by (cases i) auto
qed simp_all

lemma find_null_absent: "find_null xs < length xs \<Longrightarrow> xs ! find_null xs = None"
  by (induction xs rule: find_null.induct) auto

lemma find_null_all_present: "(\<forall>i < length xs. xs ! i \<noteq> None) \<Longrightarrow> find_null xs = length xs"
  using find_null_absent [of xs] find_null_le_length [of xs]
  by (metis le_neq_implies_less)

subsection \<open>The heap\<close>

lemma allocated_iff: "allocated h p k \<longleftrightarrow> (\<forall>a. p \<le> a \<and> a < p + k \<longrightarrow> h a \<noteq> None)"
  by (auto simp: allocated_def list_all_iff)

lemma load_fault: "load h p k = Inl e \<Longrightarrow> e = OutOfBounds"
  by (simp add: load_def split: if_splits)

lemma store_fault: "store h p bs = Inl e \<Longrightarrow> e = OutOfBounds"
  by (simp add: store_def split: if_splits)

lemma length_peek [simp]: "length (peek h p k) = k"
  by (simp add: peek_def)

lemma nth_peek [simp]: "j < k \<Longrightarrow> peek h p k ! j = the (h (p + j))"
  by (simp add: peek_def)

lemma load_allocated: "allocated h p k \<Longrightarrow> load h p k = Inr (peek h p k)"
  by (simp add: load_def)

lemma store_allocated: "allocated h p (length bs) \<Longrightarrow> store h p bs = Inr (poke h p bs)"
  by (simp add: store_def)

lemma poke_inside: "p \<le> a \<Longrightarrow> a < p + length bs \<Longrightarrow> poke h p bs a = Some (bs ! (a - p))"
  by (simp add: poke_def)

lemma poke_at [simp]: "j < length bs \<Longrightarrow> poke h p bs (p + j) = Some (bs ! j)"
  by (simp add: poke_def)

lemma poke_outside: "a < p \<or> p + length bs \<le> a \<Longrightarrow> poke h p bs a = h a"
  by (auto simp: poke_def)

lemma poke_None_iff:
  "allocated h p (length bs) \<Longrightarrow> poke h p bs a = None \<longleftrightarrow> h a = None"
  by (auto simp: poke_def allocated_iff)

lemma chunk_offset_less: "(a::nat) < b \<Longrightarrow> j < W \<Longrightarrow> a * W + j < b * W"
proof -
  assume "a < b" "j < W"
  then have "a * W + j < Suc a * W" by simp
  also from \<open>a < b\<close> have "\<dots> \<le> b * W" by (intro mult_le_mono1) simp
  finally show ?thesis .
qed

lemma allocated_sub:
  "allocated h p L \<Longrightarrow> q + k \<le> L \<Longrightarrow> allocated h (p + q) k"
  by (auto simp: allocated_iff)

subsection \<open>Sizes\<close>

lemma to_size_t_distance:
  "p \<le> q \<Longrightarrow> q - p < SIZE_MOD \<Longrightarrow> to_size_t (distance p q) = q - p"
  by (simp add: to_size_t_def distance_def nat_diff_distrib' flip: of_nat_diff)

lemma ida_properties_defined:
  assumes "1 \<le> n" and "1 \<le> W" and "n * W < SIZE_MOD"
  shows "ida_properties W in_begin in_end n =
           Inr \<lparr>full_rounds = to_size_t (distance in_begin in_end) div (n * W),
                partial_round = (to_size_t (distance in_begin in_end) mod (n * W) \<noteq> 0)\<rparr>"
  using assms by (simp add: ida_properties_def Let_def)

subsection \<open>Chunks as bytes\<close>

text \<open>
  Why \<open>xor_chunk\<close> models \<^verbatim>\<open>^=\<close> on an unsigned integer of any width: every byte of the
  exclusive or of two words is the exclusive or of their bytes at the same place, so it
  does not matter in which order the machine lays the bytes out.
\<close>

lemma word_xor_bytewise:
  fixes x y :: "'a::len word"
  shows "(ucast (drop_bit (8 * j) (x XOR y)) :: byte)
           = ucast (drop_bit (8 * j) x) XOR ucast (drop_bit (8 * j) y)"
  by (rule bit_word_eqI) (simp add: bit_simps)

section \<open>encode_1 is correct\<close>

subsection \<open>One chunk\<close>

text \<open>Writing the chunk of slice \<open>i\<close> in round \<open>r\<close>, and then the parity chunk of the round.\<close>

lemma enc_heap_data_step:
  assumes buf: "encode_buffers n ps L h0 in_begin s" and L: "L = NC * W"
    and r: "r < NC" and i: "i < n"
    and inv: "enc_heap W n ps L bs h0 r i h"
    and len: "length chunk = W"
    and chunk: "\<forall>j<W. chunk ! j = data_byte W n bs r i j"
  shows "allocated h (ps ! i + r * W) W"
    and "enc_heap W n ps L bs h0 r (Suc i) (poke h (ps ! i + r * W) chunk)"
proof -
  let ?p = "ps ! i + r * W"
  from r have in_range: "r * W + j < L" if "j < W" for j
    using chunk_offset_less [OF r that] L by simp
  from buf i have al0: "allocated h0 (ps ! i) L"
    by (simp add: encode_buffers_def)
  from r have "Suc r * W \<le> NC * W" by (intro mult_le_mono1) simp
  with L have "r * W + W \<le> L" by simp
  from allocated_sub [OF al0 this] have "allocated h0 ?p W" .
  with inv show al: "allocated h ?p W"
    by (simp add: allocated_iff enc_heap_def)
  have same: "h a = None \<longleftrightarrow> h0 a = None" for a
    using inv by (simp add: enc_heap_def)
  have inside: "ps ! i \<le> a \<and> a < ps ! i + L" if "?p \<le> a" "a < ?p + W" for a
  proof -
    from that have "a - ?p < W" by simp
    from in_range [OF this] that show ?thesis by simp
  qed
  have other_slice: "a < ?p \<or> ?p + W \<le> a"
    if "k \<le> n" "k \<noteq> i" "ps ! k \<le> a" "a < ps ! k + L" for a k
  proof (rule ccontr)
    assume "\<not> (a < ?p \<or> ?p + W \<le> a)"
    then have "ps ! i \<le> a \<and> a < ps ! i + L" using inside by simp
    moreover from buf that(1,2) i have "apart (ps ! k) L (ps ! i) L"
      by (simp add: encode_buffers_def)
    ultimately show False using that(3,4) by (auto simp: apart_def)
  qed
  show "enc_heap W n ps L bs h0 r (Suc i) (poke h ?p chunk)"
    unfolding enc_heap_def
  proof (intro conjI allI impI)
    fix a
    show "poke h ?p chunk a = None \<longleftrightarrow> h0 a = None"
      using poke_None_iff [of h ?p chunk a] al len same by simp
  next
    fix a
    assume out: "\<forall>k\<le>n. a < ps ! k \<or> ps ! k + L \<le> a"
    with i inside [of a] have "a < ?p \<or> ?p + W \<le> a"
      by (metis less_imp_le_nat not_less)
    then have "poke h ?p chunk a = h a" using len by (simp add: poke_outside)
    with out inv show "poke h ?p chunk a = h0 a" by (simp add: enc_heap_def)
  next
    fix r' k j
    assume a: "k < n \<and> j < W \<and> (r' < r \<or> r' = r \<and> k < Suc i)"
    show "poke h ?p chunk (ps ! k + r' * W + j) = Some (data_byte W n bs r' k j)"
    proof (cases "r' = r \<and> k = i")
      case True
      with a chunk len show ?thesis by simp
    next
      case False
      with a have old: "r' < r \<or> r' = r \<and> k < i" by auto
      with inv a have h: "h (ps ! k + r' * W + j) = Some (data_byte W n bs r' k j)"
        by (simp add: enc_heap_def)
      have "ps ! k + r' * W + j < ?p \<or> ?p + W \<le> ps ! k + r' * W + j"
      proof (cases "k = i")
        case True
        with False old have "r' < r" by auto
        from chunk_offset_less [OF this, of j W] a True show ?thesis by simp
      next
        case False
        from old r have "r' < NC" by auto
        from chunk_offset_less [OF this, of j W] a L
        have "ps ! k + r' * W + j < ps ! k + L" by simp
        with other_slice [of k "ps ! k + r' * W + j"] a False show ?thesis by simp
      qed
      with h len show ?thesis by (simp add: poke_outside)
    qed
  next
    fix r' j
    assume a: "r' < r \<and> j < W"
    with inv have h: "h (ps ! n + r' * W + j) = Some (parity_byte W n bs r' j)"
      by (simp add: enc_heap_def)
    from a r have "r' < NC" by auto
    from chunk_offset_less [OF this, of j W] a L
    have "ps ! n + r' * W + j < ps ! n + L" by simp
    with other_slice [of n "ps ! n + r' * W + j"] i
    have "ps ! n + r' * W + j < ?p \<or> ?p + W \<le> ps ! n + r' * W + j" by simp
    with h len show "poke h ?p chunk (ps ! n + r' * W + j) = Some (parity_byte W n bs r' j)"
      by (simp add: poke_outside)
  qed
qed

lemma enc_heap_parity_step:
  assumes buf: "encode_buffers n ps L h0 in_begin s" and L: "L = NC * W"
    and r: "r < NC"
    and inv: "enc_heap W n ps L bs h0 r n h"
    and len: "length parity = W"
    and parity: "\<forall>j<W. parity ! j = parity_byte W n bs r j"
  shows "allocated h (ps ! n + r * W) W"
    and "enc_heap W n ps L bs h0 (Suc r) 0 (poke h (ps ! n + r * W) parity)"
proof -
  let ?p = "ps ! n + r * W"
  from buf have al0: "allocated h0 (ps ! n) L"
    by (simp add: encode_buffers_def)
  from r have "Suc r * W \<le> NC * W" by (intro mult_le_mono1) simp
  with L have whole: "r * W + W \<le> L" by simp
  from allocated_sub [OF al0 this] have "allocated h0 ?p W" .
  with inv show al: "allocated h ?p W"
    by (simp add: allocated_iff enc_heap_def)
  have same: "h a = None \<longleftrightarrow> h0 a = None" for a
    using inv by (simp add: enc_heap_def)
  have inside: "ps ! n \<le> a \<and> a < ps ! n + L" if "?p \<le> a" "a < ?p + W" for a
    using that whole by simp
  have other_slice: "a < ?p \<or> ?p + W \<le> a"
    if "k < n" "ps ! k \<le> a" "a < ps ! k + L" for a k
  proof (rule ccontr)
    assume "\<not> (a < ?p \<or> ?p + W \<le> a)"
    then have "ps ! n \<le> a \<and> a < ps ! n + L" using inside by simp
    moreover from buf that(1) have "apart (ps ! k) L (ps ! n) L"
      by (simp add: encode_buffers_def)
    ultimately show False using that(2,3) by (auto simp: apart_def)
  qed
  show "enc_heap W n ps L bs h0 (Suc r) 0 (poke h ?p parity)"
    unfolding enc_heap_def
  proof (intro conjI allI impI)
    fix a
    show "poke h ?p parity a = None \<longleftrightarrow> h0 a = None"
      using poke_None_iff [of h ?p parity a] al len same by simp
  next
    fix a
    assume out: "\<forall>k\<le>n. a < ps ! k \<or> ps ! k + L \<le> a"
    with inside [of a] have "a < ?p \<or> ?p + W \<le> a"
      by (metis le_refl not_less)
    then have "poke h ?p parity a = h a" using len by (simp add: poke_outside)
    with out inv show "poke h ?p parity a = h0 a" by (simp add: enc_heap_def)
  next
    fix r' k j
    assume a: "k < n \<and> j < W \<and> (r' < Suc r \<or> r' = Suc r \<and> k < 0)"
    then have old: "r' < r \<or> r' = r \<and> k < n" by auto
    with inv a have h: "h (ps ! k + r' * W + j) = Some (data_byte W n bs r' k j)"
      by (simp add: enc_heap_def)
    from old r have "r' < NC" by auto
    from chunk_offset_less [OF this, of j W] a L
    have "ps ! k + r' * W + j < ps ! k + L" by simp
    with other_slice [of k "ps ! k + r' * W + j"] a
    have "ps ! k + r' * W + j < ?p \<or> ?p + W \<le> ps ! k + r' * W + j" by simp
    with h len show "poke h ?p parity (ps ! k + r' * W + j) = Some (data_byte W n bs r' k j)"
      by (simp add: poke_outside)
  next
    fix r' j
    assume a: "r' < Suc r \<and> j < W"
    show "poke h ?p parity (ps ! n + r' * W + j) = Some (parity_byte W n bs r' j)"
    proof (cases "r' = r")
      case True
      with a parity len show ?thesis by simp
    next
      case False
      with a have lt: "r' < r" by simp
      with inv a have h: "h (ps ! n + r' * W + j) = Some (parity_byte W n bs r' j)"
        by (simp add: enc_heap_def)
      from chunk_offset_less [OF lt, of j W] a
      have "ps ! n + r' * W + j < ?p" by simp
      with h len show ?thesis by (simp add: poke_outside)
    qed
  qed
qed

lemma enc_slices_data_step:
  assumes "enc_slices W n ps r i sl" and "i < n"
  shows "slice_ptr sl i = Inr (ps ! i + r * W)"
    and "enc_slices W n ps r (Suc i) (sl[i := Some (ps ! i + r * W + W)])"
  using assms by (auto simp: enc_slices_def slice_ptr_eq_Inr nth_list_update)

lemma enc_slices_parity_step:
  assumes "enc_slices W n ps r n sl"
  shows "slice_ptr sl n = Inr (ps ! n + r * W)"
    and "enc_slices W n ps (Suc r) 0 (sl[n := Some (ps ! n + r * W + W)])"
  using assms by (auto simp: enc_slices_def slice_ptr_eq_Inr nth_list_update)

lemma enc_parity_start: "enc_parity W n bs r 0 (zero_chunk W)"
  by (simp add: enc_parity_def zero_chunk_def)

lemma enc_parity_step:
  assumes "enc_parity W n bs r i parity" and "length chunk = W"
    and "\<forall>j<W. chunk ! j = data_byte W n bs r i j"
  shows "enc_parity W n bs r (Suc i) (xor_chunk parity chunk)"
  using assms by (simp add: enc_parity_def xor_chunk_def)

lemma enc_parity_done:
  "enc_parity W n bs r n parity \<Longrightarrow> \<forall>j<W. parity ! j = parity_byte W n bs r j"
  by (simp add: enc_parity_def parity_byte_def)

text \<open>The input is still what it was, since no slice shares a byte with it.\<close>

lemma enc_heap_input:
  assumes buf: "encode_buffers n ps L h0 in_begin s"
    and inv: "enc_heap W n ps L bs h0 r i h"
  shows "allocated h in_begin s" and "x < s \<Longrightarrow> h (in_begin + x) = h0 (in_begin + x)"
proof -
  from buf inv show "allocated h in_begin s"
    by (simp add: encode_buffers_def enc_heap_def allocated_iff)
  assume x: "x < s"
  have "\<forall>k\<le>n. in_begin + x < ps ! k \<or> ps ! k + L \<le> in_begin + x"
  proof (intro allI impI)
    fix k assume "k \<le> n"
    with buf have "apart (ps ! k) L in_begin s" by (simp add: encode_buffers_def)
    with x show "in_begin + x < ps ! k \<or> ps ! k + L \<le> in_begin + x"
      by (auto simp: apart_def)
  qed
  with inv show "h (in_begin + x) = h0 (in_begin + x)"
    by (simp add: enc_heap_def)
qed

lemma padded_peek:
  "padded (peek h p s) x = (if x < s then the (h (p + x)) else 0)"
  by (simp add: padded_def)

lemma encode_chunk_step:
  assumes buf: "encode_buffers n ps L h0 in_begin s" and L: "L = NC * W"
    and bs: "bs = peek h0 in_begin s"
    and r: "r < NC" and i: "i < n"
    and full: "(r * n + i) * W + W \<le> s"
    and inv: "enc_inner W n ps L bs h0 in_begin r i st"
  shows "\<exists>st'. encode_chunk W i st = Inr st' \<and> enc_inner W n ps L bs h0 in_begin r (Suc i) st'"
proof -
  obtain h ib sl parity where st: "st = ((h, ib, sl), parity)" by (cases st) auto
  define x where "x = (r * n + i) * W"
  have next_x: "(r * n + Suc i) * W = x + W" by (simp add: x_def algebra_simps)
  from inv st bs full have ib: "ib = in_begin + x"
    and heap: "enc_heap W n ps L bs h0 r i h"
    and slices: "enc_slices W n ps r i sl"
    and par: "enc_parity W n bs r i parity"
    by (simp_all add: enc_inner_def x_def)
  define chunk where "chunk = peek h ib W"
  from full have xs: "x + W \<le> s" by (simp add: x_def)
  from allocated_sub [OF enc_heap_input(1) [OF buf heap] xs] ib
  have "allocated h ib W" by simp
  then have rd: "from_bytes_cast W h ib = Inr chunk"
    by (simp add: from_bytes_cast_def load_allocated chunk_def)
  have len: "length chunk = W" by (simp add: chunk_def)
  have bytes: "\<forall>j<W. chunk ! j = data_byte W n bs r i j"
  proof (intro allI impI)
    fix j assume j: "j < W"
    with xs have "x + j < s" by simp
    from enc_heap_input(2) [OF buf heap this] j ib \<open>x + j < s\<close>
    show "chunk ! j = data_byte W n bs r i j"
      by (simp add: chunk_def data_byte_def bs padded_peek x_def add.assoc)
  qed
  note ptr = enc_slices_data_step [OF slices i]
  note wr = enc_heap_data_step [OF buf L r i heap len bytes]
  from wr(1) len have st: "to_bytes_cast chunk h (ps ! i + r * W) = Inr (poke h (ps ! i + r * W) chunk)"
    by (simp add: to_bytes_cast_def store_allocated)
  have "encode_chunk W i st
          = Inr ((poke h (ps ! i + r * W) chunk, ib + W, sl[i := Some (ps ! i + r * W + W)]),
                 xor_chunk parity chunk)"
    by (simp add: encode_chunk_def \<open>st = _\<close> rd ptr(1) st)
  moreover have "enc_inner W n ps L bs h0 in_begin r (Suc i)
          ((poke h (ps ! i + r * W) chunk, ib + W, sl[i := Some (ps ! i + r * W + W)]),
           xor_chunk parity chunk)"
    using ib xs bs wr(2) ptr(2) enc_parity_step [OF par len bytes]
    unfolding enc_inner_def next_x by simp
  ultimately show ?thesis by blast
qed

lemma encode_chunk_padded_step:
  assumes buf: "encode_buffers n ps L h0 in_begin s" and L: "L = NC * W"
    and bs: "bs = peek h0 in_begin s"
    and r: "r < NC" and i: "i < n"
    and fits: "s < SIZE_MOD" and in_end: "in_end = in_begin + s"
    and inv: "enc_inner W n ps L bs h0 in_begin r i st"
  shows "\<exists>st'. encode_chunk_padded W in_end i st = Inr st'
           \<and> enc_inner W n ps L bs h0 in_begin r (Suc i) st'"
proof -
  obtain h ib sl parity where st: "st = ((h, ib, sl), parity)" by (cases st) auto
  define x where "x = (r * n + i) * W"
  have next_x: "(r * n + Suc i) * W = x + W" by (simp add: x_def algebra_simps)
  from inv st bs have ib: "ib = in_begin + min s x"
    and heap: "enc_heap W n ps L bs h0 r i h"
    and slices: "enc_slices W n ps r i sl"
    and par: "enc_parity W n bs r i parity"
    by (simp_all add: enc_inner_def x_def)
  define size_chunk where "size_chunk = min (s - min s x) W"
  from ib in_end fits have sz: "min (to_size_t (distance ib in_end)) W = size_chunk"
    by (simp add: to_size_t_distance size_chunk_def)
  define chunk where "chunk = peek h ib size_chunk @ replicate (W - size_chunk) 0"
  have "min s x + size_chunk \<le> s" by (simp add: size_chunk_def)
  from allocated_sub [OF enc_heap_input(1) [OF buf heap] this] ib
  have "allocated h ib size_chunk" by simp
  moreover have "size_chunk \<le> W" by (simp add: size_chunk_def)
  ultimately have rd: "from_bytes_cast_padded W h ib size_chunk = Inr chunk"
    by (simp add: from_bytes_cast_padded_def load_allocated chunk_def)
  have len: "length chunk = W" using \<open>size_chunk \<le> W\<close> by (simp add: chunk_def)
  have bytes: "\<forall>j<W. chunk ! j = data_byte W n bs r i j"
  proof (intro allI impI)
    fix j assume j: "j < W"
    show "chunk ! j = data_byte W n bs r i j"
    proof (cases "j < size_chunk")
      case True
      then have "x \<le> s" "x + j < s" by (auto simp: size_chunk_def)
      from enc_heap_input(2) [OF buf heap this(2)] True this ib
      show ?thesis
        by (simp add: chunk_def nth_append data_byte_def bs padded_peek x_def add.assoc min_def)
    next
      case False
      with j have "s \<le> x + j" by (auto simp: size_chunk_def)
      with False j show ?thesis
        by (simp add: chunk_def nth_append data_byte_def bs padded_peek x_def)
    qed
  qed
  note ptr = enc_slices_data_step [OF slices i]
  note wr = enc_heap_data_step [OF buf L r i heap len bytes]
  from wr(1) len have st: "to_bytes_cast chunk h (ps ! i + r * W) = Inr (poke h (ps ! i + r * W) chunk)"
    by (simp add: to_bytes_cast_def store_allocated)
  have "encode_chunk_padded W in_end i st
          = Inr ((poke h (ps ! i + r * W) chunk, ib + size_chunk,
                  sl[i := Some (ps ! i + r * W + W)]), xor_chunk parity chunk)"
    by (simp add: encode_chunk_padded_def \<open>st = _\<close> sz rd ptr(1) st)
  moreover have "ib + size_chunk = in_begin + min s (x + W)"
    by (auto simp: ib size_chunk_def min_def)
  then have "enc_inner W n ps L bs h0 in_begin r (Suc i)
          ((poke h (ps ! i + r * W) chunk, ib + size_chunk,
            sl[i := Some (ps ! i + r * W + W)]), xor_chunk parity chunk)"
    using bs wr(2) ptr(2) enc_parity_step [OF par len bytes]
    unfolding enc_inner_def next_x by simp
  ultimately show ?thesis by blast
qed

lemma write_parity_step:
  assumes buf: "encode_buffers n ps L h0 in_begin s" and L: "L = NC * W"
    and r: "r < NC"
    and inv: "enc_inner W n ps L bs h0 in_begin r n st"
  shows "\<exists>st'. write_parity W n st = Inr st' \<and> enc_outer W n ps L bs h0 in_begin (Suc r) st'"
proof -
  obtain h ib sl parity where st: "st = ((h, ib, sl), parity)" by (cases st) auto
  from inv st have ib: "ib = in_begin + min (length bs) ((r * n + n) * W)"
    and heap: "enc_heap W n ps L bs h0 r n h"
    and slices: "enc_slices W n ps r n sl"
    and par: "enc_parity W n bs r n parity"
    by (simp_all add: enc_inner_def)
  from par have len: "length parity = W" by (simp add: enc_parity_def)
  note ptr = enc_slices_parity_step [OF slices]
  note wr = enc_heap_parity_step [OF buf L r heap len enc_parity_done [OF par]]
  from wr(1) len
  have "to_bytes_cast parity h (ps ! n + r * W) = Inr (poke h (ps ! n + r * W) parity)"
    by (simp add: to_bytes_cast_def store_allocated)
  then have "write_parity W n st
          = Inr (poke h (ps ! n + r * W) parity, ib, sl[n := Some (ps ! n + r * W + W)])"
    by (simp add: write_parity_def st ptr(1))
  moreover have "enc_outer W n ps L bs h0 in_begin (Suc r)
          (poke h (ps ! n + r * W) parity, ib, sl[n := Some (ps ! n + r * W + W)])"
    using ib wr(2) ptr(2) by (simp add: enc_outer_def algebra_simps)
  ultimately show ?thesis by blast
qed

lemma enc_outer_inner:
  "enc_outer W n ps L bs h0 in_begin r st
     \<Longrightarrow> enc_inner W n ps L bs h0 in_begin r 0 (st, zero_chunk W)"
  by (cases st) (simp add: enc_outer_def enc_inner_def enc_parity_start)

subsection \<open>Rounds\<close>

lemma encode_full_round_step:
  assumes buf: "encode_buffers n ps L h0 in_begin s" and L: "L = NC * W"
    and bs: "bs = peek h0 in_begin s"
    and r: "r < NC"
    and full: "Suc r * (n * W) \<le> s"
    and inv: "enc_outer W n ps L bs h0 in_begin r st"
  shows "\<exists>st'. encode_full_round W n st = Inr st'
           \<and> enc_outer W n ps L bs h0 in_begin (Suc r) st'"
proof -
  have "\<exists>st1. for_loop 0 n (encode_chunk W) (st, zero_chunk W) = Inr st1
          \<and> enc_inner W n ps L bs h0 in_begin r n st1"
  proof (rule for_loop_total [where I = "enc_inner W n ps L bs h0 in_begin r"])
    show "enc_inner W n ps L bs h0 in_begin r 0 (st, zero_chunk W)"
      using inv by (rule enc_outer_inner)
  next
    fix i st1
    assume "0 \<le> i" and i: "i < n" and inner: "enc_inner W n ps L bs h0 in_begin r i st1"
    from i have "(r * n + Suc i) * W \<le> (r * n + n) * W"
      by (intro mult_le_mono1) simp
    also have "\<dots> = Suc r * (n * W)" by (simp add: algebra_simps)
    finally have "(r * n + i) * W + W \<le> s" using full by (simp add: algebra_simps)
    from encode_chunk_step [OF buf L bs r i this inner]
    show "\<exists>st'. encode_chunk W i st1 = Inr st'
            \<and> enc_inner W n ps L bs h0 in_begin r (Suc i) st'" .
  qed simp
  then obtain st1 where loop: "for_loop 0 n (encode_chunk W) (st, zero_chunk W) = Inr st1"
    and inner: "enc_inner W n ps L bs h0 in_begin r n st1" by blast
  from write_parity_step [OF buf L r inner] loop show ?thesis
    by (simp add: encode_full_round_def)
qed

lemma encode_partial_round_step:
  assumes buf: "encode_buffers n ps L h0 in_begin s" and L: "L = NC * W"
    and bs: "bs = peek h0 in_begin s"
    and r: "r < NC"
    and fits: "s < SIZE_MOD"
    and inv: "enc_outer W n ps L bs h0 in_begin r st"
  shows "\<exists>st'. encode_partial_round W (in_begin + s) n st = Inr st'
           \<and> enc_outer W n ps L bs h0 in_begin (Suc r) st'"
proof -
  have "\<exists>st1. for_loop 0 n (encode_chunk_padded W (in_begin + s)) (st, zero_chunk W) = Inr st1
          \<and> enc_inner W n ps L bs h0 in_begin r n st1"
  proof (rule for_loop_total [where I = "enc_inner W n ps L bs h0 in_begin r"])
    show "enc_inner W n ps L bs h0 in_begin r 0 (st, zero_chunk W)"
      using inv by (rule enc_outer_inner)
  next
    fix i st1
    assume "0 \<le> i" and i: "i < n" and inner: "enc_inner W n ps L bs h0 in_begin r i st1"
    from encode_chunk_padded_step [OF buf L bs r i fits refl inner]
    show "\<exists>st'. encode_chunk_padded W (in_begin + s) i st1 = Inr st'
            \<and> enc_inner W n ps L bs h0 in_begin r (Suc i) st'" .
  qed simp
  then obtain st1
    where loop: "for_loop 0 n (encode_chunk_padded W (in_begin + s)) (st, zero_chunk W) = Inr st1"
    and inner: "enc_inner W n ps L bs h0 in_begin r n st1" by blast
  from write_parity_step [OF buf L r inner] loop show ?thesis
    by (simp add: encode_partial_round_def)
qed

lemma enc_outer_start:
  "length ps = n + 1 \<Longrightarrow> enc_outer W n ps L bs h0 in_begin 0 (h0, in_begin, map Some ps)"
  by (simp add: enc_outer_def enc_heap_def enc_slices_def)

lemma ida_properties_input:
  assumes "1 \<le> n" and "1 \<le> W" and "n * W < SIZE_MOD" and "s < SIZE_MOD"
  shows "ida_properties W in_begin (in_begin + s) n =
           Inr \<lparr>full_rounds = s div (n * W), partial_round = (s mod (n * W) \<noteq> 0)\<rparr>"
  using ida_properties_defined [OF assms(1-3), of in_begin "in_begin + s"] assms(4)
  by (simp add: to_size_t_distance)

lemma num_chunks_input:
  assumes "s < SIZE_MOD"
  shows "num_chunks \<lparr>full_rounds = s div m, partial_round = (s mod m \<noteq> 0)\<rparr>
           = s div m + (if s mod m \<noteq> 0 then 1 else 0)"
proof (cases "s mod m = 0")
  case True
  have "s div m \<le> s" by simp
  with assms have "s div m < SIZE_MOD" by linarith
  with True show ?thesis by (simp add: num_chunks_def)
next
  case False
  have "s div m * m + s mod m = s" by simp
  with False have "s div m * m < s" by linarith
  moreover have "s div m \<le> s div m * m"
    using False by (cases m) simp_all
  ultimately have "s div m + 1 < SIZE_MOD" using assms by linarith
  with False show ?thesis by (simp add: num_chunks_def)
qed

text \<open>
  \<^verbatim>\<open>encode_1\<close> returns the properties, and leaves the slices filled with the chunks of
  the input and their parity.
\<close>

lemma encode_1_total:
  assumes n: "1 \<le> n" and W: "1 \<le> W" and nW: "n * W < SIZE_MOD" and fits: "s < SIZE_MOD"
    and p: "p = \<lparr>full_rounds = s div (n * W), partial_round = (s mod (n * W) \<noteq> 0)\<rparr>"
    and buf: "encode_buffers n ps (num_chunks p * W) h0 in_begin s"
    and bs: "bs = peek h0 in_begin s"
  shows "\<exists>h' sl'. encode_1 W h0 in_begin (in_begin + s) (map Some ps) n = Inr (p, h', sl')
           \<and> enc_heap W n ps (num_chunks p * W) bs h0 (num_chunks p) 0 h'
           \<and> enc_slices W n ps (num_chunks p) 0 sl'"
proof -
  let ?L = "num_chunks p * W"
  let ?I = "enc_outer W n ps ?L bs h0 in_begin"
  have NC: "num_chunks p = s div (n * W) + (if s mod (n * W) \<noteq> 0 then 1 else 0)"
    unfolding p using fits by (rule num_chunks_input)
  have props: "ida_properties W in_begin (in_begin + s) n = Inr p"
    unfolding p using n W nW fits by (rule ida_properties_input)
  have "\<exists>st. for_loop 0 (full_rounds p) (\<lambda>round. encode_full_round W n)
                (h0, in_begin, map Some ps) = Inr st \<and> ?I (full_rounds p) st"
  proof (rule for_loop_total [where I = ?I])
    show "?I 0 (h0, in_begin, map Some ps)"
      using buf by (simp add: enc_outer_start encode_buffers_def)
  next
    fix r st
    assume "0 \<le> r" and r: "r < full_rounds p" and inv: "?I r st"
    from r have "r < num_chunks p" using NC by (simp add: p)
    moreover from r have "Suc r * (n * W) \<le> s div (n * W) * (n * W)"
      by (intro mult_le_mono1) (simp add: p)
    then have "Suc r * (n * W) \<le> s"
      by (metis div_mult_mod_eq le_add1 le_trans)
    ultimately show "\<exists>st'. encode_full_round W n st = Inr st' \<and> ?I (Suc r) st'"
      using encode_full_round_step [OF buf refl bs _ _ inv] by blast
  qed simp
  then obtain st where full: "for_loop 0 (full_rounds p) (\<lambda>round. encode_full_round W n)
                (h0, in_begin, map Some ps) = Inr st" and inv: "?I (full_rounds p) st"
    by blast
  have "\<exists>st'. (if partial_round p then encode_partial_round W (in_begin + s) n st else Inr st)
                 = Inr st' \<and> ?I (num_chunks p) st'"
  proof (cases "partial_round p")
    case True
    then have nc: "num_chunks p = Suc (full_rounds p)" using NC by (simp add: p)
    then have "full_rounds p < num_chunks p" by simp
    from encode_partial_round_step [OF buf refl bs this fits inv] True nc
    show ?thesis by simp
  next
    case False
    then have "num_chunks p = full_rounds p" using NC by (simp add: p)
    with False inv show ?thesis by simp
  qed
  then obtain st' where
    part: "(if partial_round p then encode_partial_round W (in_begin + s) n st else Inr st)
             = Inr st'"
    and inv': "?I (num_chunks p) st'" by blast
  obtain h' ib' sl' where st': "st' = (h', ib', sl')" by (cases st') auto
  have "encode_1 W h0 in_begin (in_begin + s) (map Some ps) n = Inr (p, h', sl')"
    by (simp add: encode_1_def props full part st')
  with inv' st' show ?thesis by (auto simp: enc_outer_def)
qed

section \<open>decode is correct\<close>

subsection \<open>Slots of the output\<close>

lemma slot_inj:
  assumes "k < n" and "k' < n" and "r * n + k = r' * n + (k'::nat)"
  shows "r = r' \<and> k = k'"
proof -
  from assms(1,2) have "(r * n + k) div n = r" "(r' * n + k') div n = r'" by simp_all
  with assms(3) have "r = r'" by simp
  with assms(3) show ?thesis by simp
qed

text \<open>Two different slots of the output share no byte.\<close>

lemma slot_apart:
  assumes "c \<noteq> c'" and "j < W"
  shows "to0 + c' * W + j < to0 + c * W \<or> to0 + c * W + W \<le> to0 + c' * W + (j::nat)"
proof (cases "c' < c")
  case True
  from chunk_offset_less [OF this assms(2)] show ?thesis by simp
next
  case False
  with assms have "Suc c \<le> c'" by simp
  then have "Suc c * W \<le> c' * W" by (rule mult_le_mono1)
  then show ?thesis by simp
qed

lemma slot_in_output:
  assumes "r < C" and "k < n" and "j < W"
  shows "(r * n + k) * W + j < C * n * (W::nat)"
proof -
  from chunk_offset_less [OF assms(1,2)] have "r * n + k < C * n" .
  from chunk_offset_less [OF this assms(3)] show ?thesis .
qed

lemma slot_whole_in_output:
  assumes "r < C" and "k < n"
  shows "(r * n + k) * W + W \<le> C * n * (W::nat)"
proof -
  from chunk_offset_less [OF assms(1,2)] have "Suc (r * n + k) \<le> C * n" by simp
  then have "Suc (r * n + k) * W \<le> C * n * W" by (rule mult_le_mono1)
  then show ?thesis by simp
qed

text \<open>A chunk of a slice that \<^verbatim>\<open>decode\<close> reads is still what it was.\<close>

lemma dec_heap_source:
  assumes buf: "decode_buffers W n m qs C h0 to0"
    and inv: "dec_heap W n m qs C h0 to0 r i h"
    and r: "r < C" and k: "k \<le> n" "k \<noteq> m" "k < n \<or> m < n"
  shows "allocated h (qs ! k + r * W) W"
    and "\<forall>j<W. peek h (qs ! k + r * W) W ! j = slice_byte W qs h0 r k j"
    and "x + y \<le> C * n * W \<Longrightarrow> apart (qs ! k + r * W) W (to0 + x) y"
proof -
  from buf k have al0: "allocated h0 (qs ! k) (C * W)"
    and ap: "apart (qs ! k) (C * W) to0 (C * n * W)"
    by (simp_all add: decode_buffers_def)
  from r have "Suc r * W \<le> C * W" by (intro mult_le_mono1) simp
  then have whole: "r * W + W \<le> C * W" by simp
  from allocated_sub [OF al0 this] inv show "allocated h (qs ! k + r * W) W"
    by (simp add: allocated_iff dec_heap_def)
  show "\<forall>j<W. peek h (qs ! k + r * W) W ! j = slice_byte W qs h0 r k j"
  proof (intro allI impI)
    fix j assume j: "j < W"
    with whole have "r * W + j < C * W" by simp
    with ap have "qs ! k + r * W + j < to0 \<or> to0 + C * n * W \<le> qs ! k + r * W + j"
      by (auto simp: apart_def)
    with inv have "h (qs ! k + r * W + j) = h0 (qs ! k + r * W + j)"
      by (auto simp: dec_heap_def)
    with j show "peek h (qs ! k + r * W) W ! j = slice_byte W qs h0 r k j"
      by (simp add: slice_byte_def)
  qed
  assume "x + y \<le> C * n * W"
  with ap whole show "apart (qs ! k + r * W) W (to0 + x) y"
    by (auto simp: apart_def)
qed

text \<open>Writing the chunk of slot \<open>i\<close> of round \<open>r\<close> into the output.\<close>

lemma dec_heap_write:
  assumes buf: "decode_buffers W n m qs C h0 to0"
    and r: "r < C" and i: "i < n"
    and inv: "dec_heap W n m qs C h0 to0 r i' h"
    and len: "length chunk = W"
    and chunk: "\<forall>j<W. chunk ! j = decoded_byte W n m qs h0 r i j"
  shows "allocated h (to0 + (r * n + i) * W) W"
    and "\<forall>a. poke h (to0 + (r * n + i) * W) chunk a = None \<longleftrightarrow> h0 a = None"
    and "\<forall>a. a < to0 \<or> to0 + C * n * W \<le> a \<longrightarrow> poke h (to0 + (r * n + i) * W) chunk a = h0 a"
    and "\<forall>r' k j. k < n \<and> j < W \<and> ((r' < r \<or> r' = r \<and> k < i' \<and> k \<noteq> m) \<or> r' = r \<and> k = i) \<longrightarrow>
           poke h (to0 + (r * n + i) * W) chunk (to0 + (r' * n + k) * W + j)
             = Some (decoded_byte W n m qs h0 r' k j)"
proof -
  let ?p = "to0 + (r * n + i) * W"
  note whole = slot_whole_in_output [OF r i, of W]
  from buf have "allocated h0 to0 (C * n * W)" by (simp add: decode_buffers_def)
  from allocated_sub [OF this whole] inv show al: "allocated h ?p W"
    by (simp add: allocated_iff dec_heap_def add.assoc)
  show "\<forall>a. poke h ?p chunk a = None \<longleftrightarrow> h0 a = None"
    using poke_None_iff [of h ?p chunk] al len inv by (simp add: dec_heap_def)
  show "\<forall>a. a < to0 \<or> to0 + C * n * W \<le> a \<longrightarrow> poke h ?p chunk a = h0 a"
  proof (intro allI impI)
    fix a assume out: "a < to0 \<or> to0 + C * n * W \<le> a"
    with whole have "a < ?p \<or> ?p + W \<le> a" by auto
    then have "poke h ?p chunk a = h a" using len by (simp add: poke_outside)
    with out inv show "poke h ?p chunk a = h0 a" by (auto simp: dec_heap_def)
  qed
  show "\<forall>r' k j. k < n \<and> j < W \<and> ((r' < r \<or> r' = r \<and> k < i' \<and> k \<noteq> m) \<or> r' = r \<and> k = i) \<longrightarrow>
           poke h ?p chunk (to0 + (r' * n + k) * W + j) = Some (decoded_byte W n m qs h0 r' k j)"
  proof (intro allI impI)
    fix r' k j
    assume a: "k < n \<and> j < W \<and> ((r' < r \<or> r' = r \<and> k < i' \<and> k \<noteq> m) \<or> r' = r \<and> k = i)"
    show "poke h ?p chunk (to0 + (r' * n + k) * W + j) = Some (decoded_byte W n m qs h0 r' k j)"
    proof (cases "r' = r \<and> k = i")
      case True
      with a chunk len show ?thesis by simp
    next
      case False
      with a have old: "r' < r \<or> r' = r \<and> k < i' \<and> k \<noteq> m" by auto
      with inv a have h: "h (to0 + (r' * n + k) * W + j) = Some (decoded_byte W n m qs h0 r' k j)"
        by (simp add: dec_heap_def)
      from False slot_inj [of i n k r r'] a i have "r * n + i \<noteq> r' * n + k" by auto
      from slot_apart [OF this, of j W to0] a
      have "to0 + (r' * n + k) * W + j < ?p \<or> ?p + W \<le> to0 + (r' * n + k) * W + j" by simp
      with h len show ?thesis by (simp add: poke_outside)
    qed
  qed
qed

subsection \<open>One chunk\<close>

lemma dec_slices_step:
  assumes "dec_slices W n m qs r i pr sl" and "i < n" and "i \<noteq> m"
  shows "slice_ptr sl i = Inr (qs ! i + r * W)"
    and "dec_slices W n m qs r (Suc i) pr (sl[i := Some (qs ! i + r * W + W)])"
  using assms by (auto simp: dec_slices_def slice_ptr_eq_Inr nth_list_update)

lemma dec_heap_next:
  assumes buf: "decode_buffers W n m qs C h0 to0"
    and r: "r < C" and i: "i < n" and im: "i \<noteq> m"
    and inv: "dec_heap W n m qs C h0 to0 r i h"
    and len: "length chunk = W"
    and chunk: "\<forall>j<W. chunk ! j = slice_byte W qs h0 r i j"
  shows "dec_heap W n m qs C h0 to0 r (Suc i) (poke h (to0 + (r * n + i) * W) chunk)"
proof -
  from chunk im have "\<forall>j<W. chunk ! j = decoded_byte W n m qs h0 r i j"
    by (simp add: decoded_byte_def)
  note wr = dec_heap_write [OF buf r i inv len this]
  have "(r' < r \<or> r' = r \<and> k < i \<and> k \<noteq> m) \<or> r' = r \<and> k = i"
    if "r' < r \<or> r' = r \<and> k < Suc i \<and> k \<noteq> m" for r' k
    using that by auto
  with wr(2,3,4) show ?thesis
    unfolding dec_heap_def by blast
qed

text \<open>One chunk of the pass-through case.\<close>

lemma copy_chunk_step:
  assumes buf: "decode_buffers W n m qs C h0 to0"
    and r: "r < C" and i: "i < n" and m: "n \<le> m"
    and inv: "copy_inner W n m qs C h0 to0 r i st"
  shows "\<exists>st'. copy_chunk W i st = Inr st' \<and> copy_inner W n m qs C h0 to0 r (Suc i) st'"
proof -
  obtain h to sl where st: "st = (h, to, sl)" by (cases st) auto
  let ?p = "qs ! i + r * W"
  define chunk where "chunk = peek h ?p W"
  from inv st have to: "to = to0 + (r * n + i) * W"
    and heap: "dec_heap W n m qs C h0 to0 r i h"
    and slices: "dec_slices W n m qs r i r sl"
    by (simp_all add: copy_inner_def)
  from i m have im: "i \<noteq> m" "i \<le> n" "i < n \<or> m < n" by simp_all
  note ptr = dec_slices_step [OF slices i im(1)]
  note src = dec_heap_source [OF buf heap r im(2,1,3)]
  have len: "length chunk = W" by (simp add: chunk_def)
  from src(2) have bytes: "\<forall>j<W. chunk ! j = slice_byte W qs h0 r i j"
    by (simp add: chunk_def)
  from im(1) bytes have "\<forall>j<W. chunk ! j = decoded_byte W n m qs h0 r i j"
    by (simp add: decoded_byte_def)
  note wr = dec_heap_write [OF buf r i heap len this]
  from src(3) [OF slot_whole_in_output [OF r i, of W]] to
  have "\<not> (0 < W \<and> to < ?p + W \<and> ?p < to + W)"
    by (auto simp: apart_def)
  with src(1) wr(1) len have "memcpy h to ?p W = Inr (poke h to chunk)"
    by (simp add: memcpy_def load_allocated store_allocated chunk_def to)
  then have "copy_chunk W i st = Inr (poke h to chunk, to + W, sl[i := Some (?p + W)])"
    by (simp add: copy_chunk_def st ptr(1))
  moreover have "copy_inner W n m qs C h0 to0 r (Suc i)
                   (poke h to chunk, to + W, sl[i := Some (?p + W)])"
    using dec_heap_next [OF buf r i im(1) heap len bytes] ptr(2) to
    by (simp add: copy_inner_def algebra_simps)
  ultimately show ?thesis by blast
qed

text \<open>One chunk of the recovery case.\<close>

lemma recover_chunk_step:
  assumes buf: "decode_buffers W n m qs C h0 to0"
    and r: "r < C" and i: "i < n" and m: "m < n" and im: "i \<noteq> m"
    and inv: "dec_inner W n m qs C h0 to0 r i st"
  shows "\<exists>st'. recover_chunk W i st = Inr st' \<and> dec_inner W n m qs C h0 to0 r (Suc i) st'"
proof -
  obtain h to sl recovery where st: "st = ((h, to, sl), recovery)" by (cases st) auto
  let ?p = "qs ! i + r * W"
  define chunk where "chunk = peek h ?p W"
  from inv st have to: "to = to0 + (r * n + i) * W"
    and heap: "dec_heap W n m qs C h0 to0 r i h"
    and slices: "dec_slices W n m qs r i (r + 1) sl"
    and acc: "dec_recovery W n m qs h0 r i recovery"
    by (simp_all add: dec_inner_def)
  from i m have ik: "i \<le> n" "i < n \<or> m < n" by simp_all
  note ptr = dec_slices_step [OF slices i im]
  note src = dec_heap_source [OF buf heap r ik(1) im ik(2)]
  have len: "length chunk = W" by (simp add: chunk_def)
  from src(2) have bytes: "\<forall>j<W. chunk ! j = slice_byte W qs h0 r i j"
    by (simp add: chunk_def)
  from im bytes have "\<forall>j<W. chunk ! j = decoded_byte W n m qs h0 r i j"
    by (simp add: decoded_byte_def)
  note wr = dec_heap_write [OF buf r i heap len this]
  from src(1) have rd: "from_bytes_cast W h ?p = Inr chunk"
    by (simp add: from_bytes_cast_def load_allocated chunk_def)
  from wr(1) len have "to_bytes_cast chunk h to = Inr (poke h to chunk)"
    by (simp add: to_bytes_cast_def store_allocated to)
  with rd have "recover_chunk W i st
      = Inr ((poke h to chunk, to + W, sl[i := Some (?p + W)]), xor_chunk recovery chunk)"
    by (simp add: recover_chunk_def st ptr(1))
  moreover from acc len bytes im
  have "dec_recovery W n m qs h0 r (Suc i) (xor_chunk recovery chunk)"
    by (simp add: dec_recovery_def recovered_upto_def xor_chunk_def xor.assoc)
  then have "dec_inner W n m qs C h0 to0 r (Suc i)
      ((poke h to chunk, to + W, sl[i := Some (?p + W)]), xor_chunk recovery chunk)"
    using dec_heap_next [OF buf r i im heap len bytes] ptr(2) to
    by (simp add: dec_inner_def algebra_simps)
  ultimately show ?thesis by blast
qed

text \<open>The slot of the absent slice is passed over.\<close>

lemma dec_inner_skip:
  assumes "dec_inner W n m qs C h0 to0 r m ((h, to, sl), recovery)"
  shows "dec_inner W n m qs C h0 to0 r (Suc m) ((h, to + W, sl), recovery)"
proof -
  from assms have to: "to = to0 + (r * n + m) * W"
    and heap: "dec_heap W n m qs C h0 to0 r m h"
    and slices: "dec_slices W n m qs r m (r + 1) sl"
    and acc: "dec_recovery W n m qs h0 r m recovery"
    by (simp_all add: dec_inner_def)
  have "r' < r \<or> r' = r \<and> k < m \<and> k \<noteq> m"
    if "r' < r \<or> r' = r \<and> k < Suc m \<and> k \<noteq> m" for r' k
    using that by auto
  with heap have "dec_heap W n m qs C h0 to0 r (Suc m) h"
    unfolding dec_heap_def by blast
  moreover from slices have "dec_slices W n m qs r (Suc m) (r + 1) sl"
    unfolding dec_slices_def by (metis less_Suc_eq)
  moreover from acc have "dec_recovery W n m qs h0 r (Suc m) recovery"
    by (simp add: dec_recovery_def recovered_upto_def)
  moreover from to have "to + W = to0 + (r * n + Suc m) * W"
    by (simp add: algebra_simps)
  ultimately show ?thesis by (simp add: dec_inner_def)
qed

subsection \<open>Rounds\<close>

text \<open>The end of a round of the pass-through case.\<close>

lemma copy_inner_round:
  assumes "copy_inner W n m qs C h0 to0 r n st" and m: "n \<le> m"
  shows "dec_outer W n m qs C h0 to0 (Suc r) st"
proof -
  obtain h to sl where st: "st = (h, to, sl)" by (cases st) auto
  from assms st have to: "to = to0 + (r * n + n) * W"
    and heap: "dec_heap W n m qs C h0 to0 r n h"
    and slices: "dec_slices W n m qs r n r sl"
    by (simp_all add: copy_inner_def)
  have "r' < r \<or> r' = r \<and> k < n \<and> k \<noteq> m"
    if "k < n" "r' < Suc r \<or> r' = Suc r \<and> k < 0 \<and> k \<noteq> m" for r' k
    using that m by auto
  with heap have "dec_heap W n m qs C h0 to0 (Suc r) 0 h"
    unfolding dec_heap_def by blast
  moreover from slices m have "dec_slices W n m qs (Suc r) 0 (Suc r) sl"
    by (auto simp: dec_slices_def)
  ultimately show ?thesis using to
    by (simp add: dec_outer_def copy_inner_def st algebra_simps)
qed

lemma copy_round_step:
  assumes buf: "decode_buffers W n m qs C h0 to0"
    and r: "r < C" and m: "n \<le> m"
    and inv: "dec_outer W n m qs C h0 to0 r st"
  shows "\<exists>st'. for_loop 0 n (copy_chunk W) st = Inr st'
           \<and> dec_outer W n m qs C h0 to0 (Suc r) st'"
proof -
  have "\<exists>st'. for_loop 0 n (copy_chunk W) st = Inr st'
          \<and> copy_inner W n m qs C h0 to0 r n st'"
  proof (rule for_loop_total [where I = "copy_inner W n m qs C h0 to0 r"])
    show "copy_inner W n m qs C h0 to0 r 0 st"
      using inv by (simp add: dec_outer_def)
  next
    fix i st1
    assume "0 \<le> i" and i: "i < n" and inner: "copy_inner W n m qs C h0 to0 r i st1"
    from copy_chunk_step [OF buf r i m inner]
    show "\<exists>st'. copy_chunk W i st1 = Inr st' \<and> copy_inner W n m qs C h0 to0 r (Suc i) st'" .
  qed simp
  with m show ?thesis by (blast intro: copy_inner_round)
qed

text \<open>The start of a round of the recovery case: the parity chunk is read.\<close>

lemma recover_round_start:
  assumes buf: "decode_buffers W n m qs C h0 to0"
    and r: "r < C" and m: "m < n"
    and inv: "dec_outer W n m qs C h0 to0 r (h, to, sl)"
  shows "\<exists>recovery. slice_ptr sl n = Inr (qs ! n + r * W)
           \<and> from_bytes_cast W h (qs ! n + r * W) = Inr recovery
           \<and> dec_inner W n m qs C h0 to0 r 0
                ((h, to, sl[n := Some (qs ! n + r * W + W)]), recovery)"
proof -
  let ?p = "qs ! n + r * W"
  from inv have to: "to = to0 + r * n * W"
    and heap: "dec_heap W n m qs C h0 to0 r 0 h"
    and slices: "dec_slices W n m qs r 0 r sl"
    by (simp_all add: dec_outer_def copy_inner_def)
  from m have nk: "n \<le> n" "n \<noteq> m" "n < n \<or> m < n" by simp_all
  note src = dec_heap_source [OF buf heap r nk]
  from slices m have ptr: "slice_ptr sl n = Inr ?p"
    by (simp add: dec_slices_def slice_ptr_eq_Inr)
  from src(1) have rd: "from_bytes_cast W h ?p = Inr (peek h ?p W)"
    by (simp add: from_bytes_cast_def load_allocated)
  from slices m have "dec_slices W n m qs r 0 (r + 1) (sl[n := Some (?p + W)])"
    by (simp add: dec_slices_def)
  moreover from src(2) have "dec_recovery W n m qs h0 r 0 (peek h ?p W)"
    by (simp add: dec_recovery_def recovered_upto_def)
  ultimately have "dec_inner W n m qs C h0 to0 r 0 ((h, to, sl[n := Some (?p + W)]), peek h ?p W)"
    using to heap by (simp add: dec_inner_def)
  with ptr rd show ?thesis by blast
qed

text \<open>The end of a round of the recovery case: the recovered chunk goes to its slot.\<close>

lemma recover_round_end:
  assumes buf: "decode_buffers W n m qs C h0 to0"
    and r: "r < C" and m: "m < n"
    and inv: "dec_inner W n m qs C h0 to0 r n ((h, to, sl), recovery)"
  shows "to_bytes_cast recovery h (to0 + (r * n + m) * W)
           = Inr (poke h (to0 + (r * n + m) * W) recovery)"
    and "dec_outer W n m qs C h0 to0 (Suc r) (poke h (to0 + (r * n + m) * W) recovery, to, sl)"
proof -
  let ?p = "to0 + (r * n + m) * W"
  from inv have to: "to = to0 + (r * n + n) * W"
    and heap: "dec_heap W n m qs C h0 to0 r n h"
    and slices: "dec_slices W n m qs r n (r + 1) sl"
    and acc: "dec_recovery W n m qs h0 r n recovery"
    by (simp_all add: dec_inner_def)
  from acc have len: "length recovery = W"
    and "\<forall>j<W. recovery ! j = decoded_byte W n m qs h0 r m j"
    by (simp_all add: dec_recovery_def decoded_byte_def)
  note wr = dec_heap_write [OF buf r m heap len this(2)]
  from wr(1) len show "to_bytes_cast recovery h ?p = Inr (poke h ?p recovery)"
    by (simp add: to_bytes_cast_def store_allocated)
  have "(r' < r \<or> r' = r \<and> k < n \<and> k \<noteq> m) \<or> r' = r \<and> k = m"
    if "k < n" "r' < Suc r \<or> r' = Suc r \<and> k < 0 \<and> k \<noteq> m" for r' k
    using that by auto
  with wr(2,3,4) have "dec_heap W n m qs C h0 to0 (Suc r) 0 (poke h ?p recovery)"
    unfolding dec_heap_def by blast
  moreover from slices have "dec_slices W n m qs (Suc r) 0 (Suc r) sl"
    by (auto simp: dec_slices_def)
  ultimately show "dec_outer W n m qs C h0 to0 (Suc r) (poke h ?p recovery, to, sl)"
    using to by (simp add: dec_outer_def copy_inner_def algebra_simps)
qed

lemma recover_round_step:
  assumes buf: "decode_buffers W n m qs C h0 to0"
    and r: "r < C" and m: "m < n"
    and inv: "dec_outer W n m qs C h0 to0 r st"
  shows "\<exists>st'. recover_round W n m st = Inr st' \<and> dec_outer W n m qs C h0 to0 (Suc r) st'"
proof -
  let ?I = "dec_inner W n m qs C h0 to0 r"
  obtain h to sl where st: "st = (h, to, sl)" by (cases st) auto
  from recover_round_start [OF buf r m inv [unfolded st]]
  obtain recovery where ptr: "slice_ptr sl n = Inr (qs ! n + r * W)"
    and rd: "from_bytes_cast W h (qs ! n + r * W) = Inr recovery"
    and inv0: "?I 0 ((h, to, sl[n := Some (qs ! n + r * W + W)]), recovery)"
    by blast
  have step: "\<exists>st'. recover_chunk W i st1 = Inr st' \<and> ?I (Suc i) st'"
    if "i < n" "i \<noteq> m" "?I i st1" for i st1
    using recover_chunk_step [OF buf r that(1) m that(2,3)] .
  have "\<exists>st1. for_loop 0 m (recover_chunk W)
                 ((h, to, sl[n := Some (qs ! n + r * W + W)]), recovery) = Inr st1 \<and> ?I m st1"
  proof (rule for_loop_total [where I = ?I, OF _ inv0])
    fix i st1
    assume "0 \<le> i" "i < m" "?I i st1"
    with m step [of i st1] show "\<exists>st'. recover_chunk W i st1 = Inr st' \<and> ?I (Suc i) st'"
      by simp
  qed simp
  then obtain h1 to1 sl1 recovery1 where
    l1: "for_loop 0 m (recover_chunk W) ((h, to, sl[n := Some (qs ! n + r * W + W)]), recovery)
           = Inr ((h1, to1, sl1), recovery1)"
    and inv1: "?I m ((h1, to1, sl1), recovery1)"
    by (metis prod.collapse)
  from inv1 have to1: "to1 = to0 + (r * n + m) * W" by (simp add: dec_inner_def)
  have "\<exists>st2. for_loop (m + 1) n (recover_chunk W) ((h1, to1 + W, sl1), recovery1) = Inr st2
          \<and> ?I n st2"
  proof (rule for_loop_total [where I = ?I])
    show "m + 1 \<le> n" using m by simp
    show "?I (m + 1) ((h1, to1 + W, sl1), recovery1)"
      using dec_inner_skip [OF inv1] by simp
  next
    fix i st1
    assume "m + 1 \<le> i" "i < n" "?I i st1"
    with step [of i st1] show "\<exists>st'. recover_chunk W i st1 = Inr st' \<and> ?I (Suc i) st'"
      by simp
  qed
  then obtain h2 to2 sl2 recovery2 where
    l2: "for_loop (m + 1) n (recover_chunk W) ((h1, to1 + W, sl1), recovery1)
           = Inr ((h2, to2, sl2), recovery2)"
    and inv2: "?I n ((h2, to2, sl2), recovery2)"
    by (metis prod.collapse)
  note fin = recover_round_end [OF buf r m inv2]
  have "recover_round W n m st
          = Inr (poke h2 (to0 + (r * n + m) * W) recovery2, to2, sl2)"
    using l1 l2 by (simp add: recover_round_def st ptr rd fin(1) to1)
  with fin(2) show ?thesis by blast
qed

lemma missing_index_slices:
  assumes sl: "slices_missing n m qs sl" and m: "m \<le> n + 1" and n: "n + 1 < SIZE_MOD"
  shows "missing_index sl n = Inr m"
proof -
  from sl have len: "length sl = n + 1"
    and entry: "\<And>k. k \<le> n \<Longrightarrow> sl ! k = (if k = m then None else Some (qs ! k))"
    by (simp_all add: slices_missing_def)
  have "find_null sl = m"
  proof (cases "m \<le> n")
    case True
    with entry [of m] len have "find_null sl \<le> m" by (intro find_null_le) simp_all
    moreover have "\<not> find_null sl < m"
    proof
      assume less: "find_null sl < m"
      with True len have "sl ! find_null sl = None" by (intro find_null_absent) simp
      with entry [of "find_null sl"] less True show False by simp
    qed
    ultimately show ?thesis by simp
  next
    case False
    with m have "m = n + 1" by simp
    moreover from False entry len have "\<forall>i<length sl. sl ! i \<noteq> None" by simp
    then have "find_null sl = length sl" by (rule find_null_all_present)
    ultimately show ?thesis using len by simp
  qed
  with len n show ?thesis by (simp add: missing_index_def)
qed

lemma dec_outer_start:
  "slices_missing n m qs sl \<Longrightarrow> dec_outer W n m qs C h0 to0 0 (h0, to0, sl)"
  by (simp add: dec_outer_def copy_inner_def dec_heap_def dec_slices_def slices_missing_def)

text \<open>
  \<^verbatim>\<open>decode\<close> returns, and leaves every slot of the output written: with the chunk of its
  slice, or with the recovered chunk in the slots of an absent data slice.
\<close>

lemma decode_total:
  assumes buf: "decode_buffers W n m qs C h0 to0"
    and sl: "slices_missing n m qs sl" and m: "m \<le> n + 1" and n: "n + 1 < SIZE_MOD"
  shows "\<exists>h' sl'. decode W h0 sl n to0 C = Inr (h', sl')
           \<and> dec_heap W n m qs C h0 to0 C 0 h'
           \<and> dec_slices W n m qs C 0 C sl'"
proof -
  let ?I = "dec_outer W n m qs C h0 to0"
  let ?body = "if n \<le> m then (\<lambda>round. for_loop 0 n (copy_chunk W))
               else (\<lambda>round. recover_round W n m)"
  have "\<exists>st. for_loop 0 C ?body (h0, to0, sl) = Inr st \<and> ?I C st"
  proof (rule for_loop_total [where I = ?I])
    show "?I 0 (h0, to0, sl)" using sl by (rule dec_outer_start)
  next
    fix r st
    assume "0 \<le> r" and r: "r < C" and inv: "?I r st"
    show "\<exists>st'. ?body r st = Inr st' \<and> ?I (Suc r) st'"
    proof (cases "n \<le> m")
      case True
      with copy_round_step [OF buf r True inv] show ?thesis by simp
    next
      case False
      then have "m < n" by simp
      from recover_round_step [OF buf r this inv] False show ?thesis by simp
    qed
  qed simp
  then obtain h' to' sl' where loop: "for_loop 0 C ?body (h0, to0, sl) = Inr (h', to', sl')"
    and inv: "?I C (h', to', sl')"
    by (metis prod.collapse)
  from loop have "decode W h0 sl n to0 C = Inr (h', sl')"
    by (simp add: decode_def missing_index_slices [OF sl m n] split: if_splits)
  with inv show ?thesis
    by (auto simp: dec_outer_def copy_inner_def)
qed

section \<open>Encoding and then decoding\<close>

lemma xor_upto_cong: "(\<And>k. k < n \<Longrightarrow> f k = g k) \<Longrightarrow> xor_upto f n = xor_upto g n"
  by (induction n) simp_all

text \<open>Cancelling all terms but one out of their exclusive or leaves that one.\<close>

lemma xor_upto_cancel:
  "m < n \<Longrightarrow> xor_upto f n XOR xor_upto (\<lambda>k. if k = m then 0 else f k) n = f m"
proof (induction n)
  case 0
  then show ?case by simp
next
  case (Suc n)
  show ?case
  proof (cases "m = n")
    case True
    have "xor_upto (\<lambda>k. if k = m then 0 else f k) n = xor_upto f n"
      using True by (intro xor_upto_cong) simp
    with True show ?thesis by (simp add: xor.assoc xor.left_commute)
  next
    case False
    with Suc.prems have "m < n" by simp
    let ?A = "xor_upto f n" and ?B = "xor_upto (\<lambda>k. if k = m then 0 else f k) n"
    have "(?A XOR f n) XOR (?B XOR f n) = (?A XOR ?B) XOR (f n XOR f n)"
      by (simp add: xor.assoc xor.left_commute xor.commute)
    also have "\<dots> = f m" using Suc.IH [OF \<open>m < n\<close>] by simp
    finally show ?thesis using False by simp
  qed
qed

text \<open>Every byte of the output lies in one slot of one round.\<close>

lemma slot_of_offset:
  assumes "x < C * n * (W::nat)"
  obtains r k j where "r < C" and "k < n" and "j < W" and "x = (r * n + k) * W + j"
proof -
  from assms have W: "0 < W" and n: "0 < n" by (cases W; cases n; simp)+
  let ?c = "x div W"
  from assms have "?c < C * n" by (simp add: less_mult_imp_div_less)
  then have "?c div n < C" by (simp add: less_mult_imp_div_less)
  moreover from n have "?c mod n < n" by simp
  moreover from W have "x mod W < W" by simp
  moreover have "x = (?c div n * n + ?c mod n) * W + x mod W" by simp
  ultimately show thesis by (rule that)
qed

lemma input_fits_rounds:
  assumes "0 < m"
  shows "s \<le> (s div m + (if s mod m \<noteq> 0 then 1 else 0)) * (m::nat)"
proof (cases "s mod m = 0")
  case True
  then show ?thesis by auto
next
  case False
  have "s div m * m + s mod m = s" by simp
  moreover from assms have "s mod m < m" by simp
  ultimately have "s \<le> s div m * m + m" by linarith
  with False show ?thesis by simp
qed

text \<open>An output whose slots hold the chunks of the input begins with the input.\<close>

lemma output_begins_with_input:
  assumes slots: "\<forall>r<C. \<forall>k<n. \<forall>j<W. h (to + (r * n + k) * W + j) = Some (data_byte W n bs r k j)"
    and len: "length bs \<le> C * n * W"
  shows "load h to (length bs) = Inr bs"
proof -
  have byte: "h (to + x) = Some (bs ! x)" if "x < length bs" for x
  proof -
    from that len have "x < C * n * W" by simp
    then obtain r k j where "r < C" "k < n" "j < W" and x: "x = (r * n + k) * W + j"
      by (rule slot_of_offset)
    with slots have "h (to + ((r * n + k) * W + j)) = Some (data_byte W n bs r k j)"
      by (simp add: add.assoc)
    with x that show ?thesis by (simp add: data_byte_def padded_def)
  qed
  then have "allocated h to (length bs)"
    by (auto simp: allocated_iff) (metis le_add_diff_inverse less_diff_conv2 add.commute option.distinct(1))
  moreover have "peek h to (length bs) = bs"
    by (rule nth_equalityI) (simp_all add: byte)
  ultimately show ?thesis by (simp add: load_allocated)
qed

lemma decode_buffers_same_allocation:
  assumes "\<forall>a. h' a = None \<longleftrightarrow> h a = None"
  shows "decode_buffers W n m qs C h' to = decode_buffers W n m qs C h to"
  using assms by (simp add: decode_buffers_def allocated_iff)

lemma encode_1_result:
  assumes n: "1 \<le> n" and W: "1 \<le> W" and nW: "n * W < SIZE_MOD" and fits: "s < SIZE_MOD"
    and props: "ida_properties W in_begin (in_begin + s) n = Inr p"
    and buf: "encode_buffers n ps (num_chunks p * W) h in_begin s"
    and bs: "bs = peek h in_begin s"
  shows "\<exists>h1 sl1. encode_1 W h in_begin (in_begin + s) (map Some ps) n = Inr (p, h1, sl1)
           \<and> enc_heap W n ps (num_chunks p * W) bs h (num_chunks p) 0 h1
           \<and> enc_slices W n ps (num_chunks p) 0 sl1"
    and "num_chunks p = full_rounds p + (if partial_round p then 1 else 0)"
    and "s \<le> num_chunks p * n * W"
proof -
  from props ida_properties_input [OF n W nW fits, of in_begin]
  have p: "p = \<lparr>full_rounds = s div (n * W), partial_round = (s mod (n * W) \<noteq> 0)\<rparr>"
    by simp
  from encode_1_total [OF n W nW fits p buf bs]
  show "\<exists>h1 sl1. encode_1 W h in_begin (in_begin + s) (map Some ps) n = Inr (p, h1, sl1)
           \<and> enc_heap W n ps (num_chunks p * W) bs h (num_chunks p) 0 h1
           \<and> enc_slices W n ps (num_chunks p) 0 sl1" .
  from num_chunks_input [OF fits, of "n * W"]
  have NC: "num_chunks p = s div (n * W) + (if s mod (n * W) \<noteq> 0 then 1 else 0)"
    unfolding p .
  then show "num_chunks p = full_rounds p + (if partial_round p then 1 else 0)"
    by (simp add: p)
  from n W have "0 < n * W" by simp
  from input_fits_rounds [OF this, of s] NC show "s \<le> num_chunks p * n * W"
    by (simp add: mult.assoc)
qed

text \<open>
  Decoding what \<^verbatim>\<open>encode_1\<close> has written, with slice \<open>m\<close> absent (or none, \<open>m = n + 1\<close>):
  every slot of the output holds the chunk that \<^verbatim>\<open>encode_1\<close> dealt to its slice, and the
  output begins with the input.
\<close>

lemma encode_decode_any:
  assumes n: "1 \<le> n" and W: "1 \<le> W" and size: "(n + 1) * W < SIZE_MOD" and s: "s < SIZE_MOD"
    and props: "ida_properties W in_begin (in_begin + s) n = Inr p"
    and ebuf: "encode_buffers n ps (num_chunks p * W) h in_begin s"
    and m: "m \<le> n + 1"
    and qs: "\<forall>k\<le>n. k < n \<or> m < n \<longrightarrow> qs ! k = ps ! k"
    and sl: "slices_missing n m qs sl"
    and dbuf: "decode_buffers W n m qs (num_chunks p) h to"
    and bs: "bs = peek h in_begin s"
  shows "\<exists>h1 sl1 h2 sl2.
      encode_1 W h in_begin (in_begin + s) (map Some ps) n = Inr (p, h1, sl1) \<and>
      enc_heap W n ps (num_chunks p * W) bs h (num_chunks p) 0 h1 \<and>
      enc_slices W n ps (num_chunks p) 0 sl1 \<and>
      decode W h1 sl n to (num_chunks p) = Inr (h2, sl2) \<and>
      dec_heap W n m qs (num_chunks p) h1 to (num_chunks p) 0 h2 \<and>
      dec_slices W n m qs (num_chunks p) 0 (num_chunks p) sl2 \<and>
      (\<forall>r<num_chunks p. \<forall>k<n. \<forall>j<W.
         h2 (to + (r * n + k) * W + j) = Some (data_byte W n bs r k j)) \<and>
      load h2 to s = Inr bs"
proof -
  let ?C = "num_chunks p"
  from size have nW: "n * W < SIZE_MOD" by (simp add: algebra_simps)
  from size W have n1: "n + 1 < SIZE_MOD"
    by (metis le_less_trans mult.right_neutral mult_le_mono2)
  note enc = encode_1_result [OF n W nW s props ebuf bs]
  from enc(1) obtain h1 sl1 where
    e: "encode_1 W h in_begin (in_begin + s) (map Some ps) n = Inr (p, h1, sl1)"
    and heap1: "enc_heap W n ps (?C * W) bs h ?C 0 h1"
    and slices1: "enc_slices W n ps ?C 0 sl1" by blast
  from heap1 have "\<forall>a. h1 a = None \<longleftrightarrow> h a = None" by (simp add: enc_heap_def)
  from decode_buffers_same_allocation [OF this] dbuf
  have dbuf1: "decode_buffers W n m qs ?C h1 to" by simp
  from decode_total [OF dbuf1 sl m n1] obtain h2 sl2 where
    d: "decode W h1 sl n to ?C = Inr (h2, sl2)"
    and heap2: "dec_heap W n m qs ?C h1 to ?C 0 h2"
    and slices2: "dec_slices W n m qs ?C 0 ?C sl2" by blast
  have data: "slice_byte W qs h1 r k j = data_byte W n bs r k j"
    if "r < ?C" "k < n" "j < W" for r k j
    using heap1 that qs by (simp add: enc_heap_def slice_byte_def)
  have parity: "slice_byte W qs h1 r n j = parity_byte W n bs r j"
    if "r < ?C" "j < W" "m < n" for r j
    using heap1 that qs by (simp add: enc_heap_def slice_byte_def)
  have decoded: "decoded_byte W n m qs h1 r k j = data_byte W n bs r k j"
    if r: "r < ?C" and k: "k < n" and j: "j < W" for r k j
  proof (cases "k = m")
    case False
    with data [OF that] show ?thesis by (simp add: decoded_byte_def)
  next
    case True
    with k have mn: "m < n" by simp
    have "xor_upto (\<lambda>k. if k = m then 0 else slice_byte W qs h1 r k j) n
            = xor_upto (\<lambda>k. if k = m then 0 else data_byte W n bs r k j) n"
      using data [OF r _ j] by (intro xor_upto_cong) simp
    with True parity [OF r j mn] xor_upto_cancel [OF mn, of "\<lambda>k. data_byte W n bs r k j"]
    show ?thesis
      by (simp add: decoded_byte_def recovered_upto_def parity_byte_def)
  qed
  have slots: "\<forall>r<?C. \<forall>k<n. \<forall>j<W. h2 (to + (r * n + k) * W + j) = Some (data_byte W n bs r k j)"
    using heap2 decoded by (simp add: dec_heap_def)
  from enc(3) bs have "length bs \<le> ?C * n * W" by simp
  from output_begins_with_input [OF slots this] bs have "load h2 to s = Inr bs" by simp
  with e heap1 slices1 d heap2 slices2 slots show ?thesis by blast
qed

section \<open>The pointers left in the array\<close>

lemma advanced_none: "advanced d (\<lambda>k. False) sl sl"
  by (simp add: advanced_def)

lemma advanced_zero: "advanced 0 T sl sl"
  by (simp add: advanced_def option.map_ident)

lemma advanced_cong:
  "(\<And>k. k < length sl \<Longrightarrow> T k = T' k) \<Longrightarrow> advanced d T sl sl' = advanced d T' sl sl'"
  by (auto simp: advanced_def)

lemma advanced_touch:
  assumes "advanced d T sl0 sl" and "\<not> T i" and "i < length sl" and "sl ! i = Some q"
  shows "advanced d (\<lambda>k. T k \<or> k = i) sl0 (sl[i := Some (q + d)])"
  using assms by (auto simp: advanced_def nth_list_update)

lemma advanced_trans:
  assumes "advanced d1 T sl0 sl1" and "advanced d2 T sl1 sl2"
  shows "advanced (d1 + d2) T sl0 sl2"
  using assms by (auto simp: advanced_def option.map_comp comp_def add.assoc)

text \<open>
  A loop whose iteration \<open>i\<close> moves the entry \<open>i\<close> of the array on by \<open>d\<close> bytes, and
  changes no other entry.
\<close>

lemma touch_loop:
  assumes body: "\<And>i s s'. body i s = Inr s' \<Longrightarrow>
             \<exists>q. i < length (sl_of s) \<and> sl_of s ! i = Some q \<and> sl_of s' = (sl_of s)[i := Some (q + d)]"
    and loop: "for_loop lo hi body s = Inr s'" and "lo \<le> hi"
    and start: "advanced d T sl0 (sl_of s)"
    and fresh: "\<And>k. lo \<le> k \<Longrightarrow> k < hi \<Longrightarrow> \<not> T k"
  shows "advanced d (\<lambda>k. T k \<or> lo \<le> k \<and> k < hi) sl0 (sl_of s')"
proof (rule for_loop_partial
    [where I = "\<lambda>i s. advanced d (\<lambda>k. T k \<or> lo \<le> k \<and> k < i) sl0 (sl_of s)", OF loop])
  show "lo \<le> hi" by fact
  have "advanced d (\<lambda>k. T k \<or> lo \<le> k \<and> k < lo) sl0 (sl_of s) = advanced d T sl0 (sl_of s)"
    by (intro advanced_cong) auto
  with start show "advanced d (\<lambda>k. T k \<or> lo \<le> k \<and> k < lo) sl0 (sl_of s)" by simp
next
  fix i s1 s2
  assume i: "lo \<le> i" "i < hi"
    and inv: "advanced d (\<lambda>k. T k \<or> lo \<le> k \<and> k < i) sl0 (sl_of s1)"
    and step: "body i s1 = Inr s2"
  from body [OF step] obtain q where q: "i < length (sl_of s1)" "sl_of s1 ! i = Some q"
    and s2: "sl_of s2 = (sl_of s1)[i := Some (q + d)]" by blast
  from fresh [OF i] have "\<not> (T i \<or> lo \<le> i \<and> i < i)" by simp
  from advanced_touch [OF inv this q]
  have "advanced d (\<lambda>k. (T k \<or> lo \<le> k \<and> k < i) \<or> k = i) sl0 (sl_of s2)"
    by (simp add: s2)
  moreover have "advanced d (\<lambda>k. (T k \<or> lo \<le> k \<and> k < i) \<or> k = i) sl0 (sl_of s2)
    = advanced d (\<lambda>k. T k \<or> lo \<le> k \<and> k < Suc i) sl0 (sl_of s2)"
    using i by (intro advanced_cong) auto
  ultimately show "advanced d (\<lambda>k. T k \<or> lo \<le> k \<and> k < Suc i) sl0 (sl_of s2)" by simp
qed

text \<open>A loop whose every iteration moves the same entries on by \<open>d\<close> bytes.\<close>

lemma rounds_loop:
  assumes body: "\<And>r s s'. body r s = Inr s' \<Longrightarrow> advanced d T (sl_of s) (sl_of s')"
    and loop: "for_loop 0 R body s = Inr s'"
  shows "advanced (R * d) T (sl_of s) (sl_of s')"
proof (rule for_loop_partial
    [where I = "\<lambda>r s1. advanced (r * d) T (sl_of s) (sl_of s1)", OF loop])
  show "advanced (0 * d) T (sl_of s) (sl_of s)" by (simp add: advanced_zero)
next
  fix r s1 s2
  assume inv: "advanced (r * d) T (sl_of s) (sl_of s1)" and step: "body r s1 = Inr s2"
  from advanced_trans [OF inv body [OF step]]
  show "advanced (Suc r * d) T (sl_of s) (sl_of s2)" by (simp add: add.commute)
qed simp

lemma encode_chunk_touches:
  "encode_chunk W i s = Inr s' \<Longrightarrow>
     \<exists>q. i < length (inner_slices s) \<and> inner_slices s ! i = Some q \<and> inner_slices s' = (inner_slices s)[i := Some (q + W)]"
  by (cases s) (auto simp: encode_chunk_def inner_slices_def and_then_eq_Inr slice_ptr_eq_Inr)

lemma encode_chunk_padded_touches:
  "encode_chunk_padded W in_end i s = Inr s' \<Longrightarrow>
     \<exists>q. i < length (inner_slices s) \<and> inner_slices s ! i = Some q \<and> inner_slices s' = (inner_slices s)[i := Some (q + W)]"
  by (cases s)
    (auto simp: encode_chunk_padded_def inner_slices_def and_then_eq_Inr slice_ptr_eq_Inr Let_def)

lemma write_parity_touches:
  assumes "write_parity W n s = Inr (h', ib', sl')" and "advanced W (\<lambda>k. k < n) sl0 (inner_slices s)"
  shows "advanced W (\<lambda>k. k \<le> n) sl0 sl'"
proof -
  from assms(1) obtain q where "n < length (inner_slices s)" "inner_slices s ! n = Some q"
    and "sl' = (inner_slices s)[n := Some (q + W)]"
    by (cases s) (auto simp: write_parity_def inner_slices_def and_then_eq_Inr slice_ptr_eq_Inr)
  with advanced_touch [OF assms(2), of n q]
  have "advanced W (\<lambda>k. k < n \<or> k = n) sl0 sl'" by simp
  moreover have "advanced W (\<lambda>k. k < n \<or> k = n) sl0 sl' = advanced W (\<lambda>k. k \<le> n) sl0 sl'"
    by (intro advanced_cong) auto
  ultimately show ?thesis by simp
qed

lemma encode_round_touches:
  assumes "for_loop 0 n body ((h, ib, sl), zero_chunk W) = Inr s1"
    and "write_parity W n s1 = Inr (h', ib', sl')"
    and body: "\<And>i s s'. body i s = Inr s' \<Longrightarrow>
      \<exists>q. i < length (inner_slices s) \<and> inner_slices s ! i = Some q \<and> inner_slices s' = (inner_slices s)[i := Some (q + W)]"
  shows "advanced W (\<lambda>k. k \<le> n) sl sl'"
proof -
  have "advanced W (\<lambda>k. False) sl (inner_slices ((h, ib, sl), zero_chunk W))"
    by (simp add: inner_slices_def advanced_none)
  from touch_loop [where sl_of = inner_slices, OF body assms(1) _ this]
  have "advanced W (\<lambda>k. False \<or> 0 \<le> k \<and> k < n) sl (inner_slices s1)" by simp
  then have "advanced W (\<lambda>k. k < n) sl (inner_slices s1)" by simp
  from write_parity_touches [OF assms(2) this] show ?thesis .
qed

lemma encode_full_round_touches:
  "encode_full_round W n (h, ib, sl) = Inr (h', ib', sl') \<Longrightarrow> advanced W (\<lambda>k. k \<le> n) sl sl'"
  by (auto simp: encode_full_round_def and_then_eq_Inr
      intro: encode_round_touches [where body = "encode_chunk W"] dest: encode_chunk_touches)

lemma encode_partial_round_touches:
  "encode_partial_round W in_end n (h, ib, sl) = Inr (h', ib', sl')
     \<Longrightarrow> advanced W (\<lambda>k. k \<le> n) sl sl'"
  by (auto simp: encode_partial_round_def and_then_eq_Inr
      intro: encode_round_touches [where body = "encode_chunk_padded W in_end"]
      dest: encode_chunk_padded_touches)

lemma to_size_t_less: "to_size_t z < SIZE_MOD"
  by (simp add: to_size_t_def SIZE_MOD_def)

lemma num_chunks_ida_properties:
  assumes "ida_properties W in_begin in_end n = Inr p"
  shows "num_chunks p = full_rounds p + (if partial_round p then 1 else 0)"
proof -
  let ?s = "to_size_t (distance in_begin in_end)" and ?m = "(n * W) mod SIZE_MOD"
  from assms have "p = \<lparr>full_rounds = ?s div ?m, partial_round = (?s mod ?m \<noteq> 0)\<rparr>"
    by (simp add: ida_properties_def Let_def split: if_splits)
  with num_chunks_input [OF to_size_t_less, of "distance in_begin in_end" ?m]
  show ?thesis by simp
qed

text \<open>\<^verbatim>\<open>encode_1\<close> moves every one of the \<open>n + 1\<close> pointers over \<open>num_chunks\<close> chunks.\<close>

lemma encode_1_advances:
  assumes "encode_1 W h in_begin in_end sl n = Inr (p, h1, sl1)"
  shows "advanced (num_chunks p * W) (\<lambda>k. k \<le> n) sl sl1"
proof -
  from assms obtain st ib1 where props: "ida_properties W in_begin in_end n = Inr p"
    and full: "for_loop 0 (full_rounds p) (\<lambda>round. encode_full_round W n) (h, in_begin, sl)
                 = Inr st"
    and part': "(if partial_round p then encode_partial_round W in_end n st else Inr st)
                 = Inr (h1, ib1, sl1)"
    by (auto simp: encode_1_def and_then_eq_Inr split: prod.splits)
  have body: "advanced W (\<lambda>k. k \<le> n) (outer_slices s) (outer_slices s')"
    if "encode_full_round W n s = Inr s'" for s s'
    using that encode_full_round_touches [of W n]
    by (cases s; cases s') (auto simp: outer_slices_def)
  from rounds_loop [where sl_of = outer_slices and body = "\<lambda>round. encode_full_round W n",
      OF body full]
  have fr: "advanced (full_rounds p * W) (\<lambda>k. k \<le> n) sl (outer_slices st)"
    by (simp add: outer_slices_def)
  have "advanced ((full_rounds p + (if partial_round p then 1 else 0)) * W) (\<lambda>k. k \<le> n) sl sl1"
  proof (cases "partial_round p")
    case True
    obtain h' ib' sl' where st: "st = (h', ib', sl')" by (cases st) auto
    from True part' st have "advanced W (\<lambda>k. k \<le> n) sl' sl1"
      by (auto intro: encode_partial_round_touches)
    from advanced_trans [OF fr [unfolded st outer_slices_def, simplified] this] True
    show ?thesis by (simp add: algebra_simps)
  next
    case False
    with part' fr show ?thesis by (auto simp: outer_slices_def)
  qed
  with num_chunks_ida_properties [OF props] show ?thesis by simp
qed

lemma copy_chunk_touches:
  "copy_chunk W i s = Inr s' \<Longrightarrow>
     \<exists>q. i < length (outer_slices s) \<and> outer_slices s ! i = Some q
        \<and> outer_slices s' = (outer_slices s)[i := Some (q + W)]"
  by (cases s) (auto simp: copy_chunk_def outer_slices_def and_then_eq_Inr slice_ptr_eq_Inr)

lemma recover_chunk_touches:
  "recover_chunk W i s = Inr s' \<Longrightarrow>
     \<exists>q. i < length (inner_slices s) \<and> inner_slices s ! i = Some q
        \<and> inner_slices s' = (inner_slices s)[i := Some (q + W)]"
  by (cases s) (auto simp: recover_chunk_def inner_slices_def and_then_eq_Inr slice_ptr_eq_Inr)

lemma copy_round_touches:
  assumes "for_loop 0 n (copy_chunk W) s = Inr s'"
  shows "advanced W (\<lambda>k. k < n) (outer_slices s) (outer_slices s')"
proof -
  from touch_loop [where sl_of = outer_slices and T = "\<lambda>k. False",
      OF copy_chunk_touches assms _ advanced_none]
  show ?thesis by simp
qed

lemma recover_round_touches:
  assumes round: "recover_round W n m s = Inr s'" and m: "m < n"
  shows "advanced W (\<lambda>k. k \<le> n \<and> k \<noteq> m) (outer_slices s) (outer_slices s')"
proof -
  obtain h to sl where s: "s = (h, to, sl)" by (cases s) auto
  from round s obtain pp recovery h1 to1 sl1 recovery1 h2 to2 sl2 recovery2 h3 where
    pp: "slice_ptr sl n = Inr pp"
    and l1: "for_loop 0 m (recover_chunk W) ((h, to, sl[n := Some (pp + W)]), recovery)
              = Inr ((h1, to1, sl1), recovery1)"
    and l2: "for_loop (m + 1) n (recover_chunk W) ((h1, to1 + W, sl1), recovery1)
              = Inr ((h2, to2, sl2), recovery2)"
    and s': "s' = (h3, to2, sl2)"
    by (auto simp: recover_round_def and_then_eq_Inr split: prod.splits)
  from pp have "n < length sl" "sl ! n = Some pp" by (simp_all add: slice_ptr_eq_Inr)
  from advanced_touch [OF advanced_none [of W sl] _ this]
  have a0: "advanced W (\<lambda>k. k = n) sl (sl[n := Some (pp + W)])" by simp
  from touch_loop [where sl_of = inner_slices and T = "\<lambda>k. k = n", OF recover_chunk_touches l1]
    a0 m
  have a1: "advanced W (\<lambda>k. k = n \<or> 0 \<le> k \<and> k < m) sl sl1"
    by (simp add: inner_slices_def)
  from touch_loop [where sl_of = inner_slices and T = "\<lambda>k. k = n \<or> 0 \<le> k \<and> k < m",
      OF recover_chunk_touches l2] a1 m
  have "advanced W (\<lambda>k. (k = n \<or> 0 \<le> k \<and> k < m) \<or> m + 1 \<le> k \<and> k < n) sl sl2"
    by (simp add: inner_slices_def)
  moreover have "advanced W (\<lambda>k. (k = n \<or> 0 \<le> k \<and> k < m) \<or> m + 1 \<le> k \<and> k < n) sl sl2
    = advanced W (\<lambda>k. k \<le> n \<and> k \<noteq> m) sl sl2"
    using m by (intro advanced_cong) auto
  ultimately show ?thesis by (simp add: s s' outer_slices_def)
qed

text \<open>
  \<^verbatim>\<open>decode\<close> moves the pointers it reads through over \<open>chunks\<close> chunks: those of the data
  slices in the pass-through case, and all but the null one in the recovery case.
\<close>

lemma decode_advances:
  assumes "decode W h sl n to chunks = Inr (h', sl')"
  shows "\<exists>m. missing_index sl n = Inr m \<and>
           advanced (chunks * W) (\<lambda>k. if n \<le> m then k < n else k \<le> n \<and> k \<noteq> m) sl sl'"
proof -
  from assms obtain m to' where mi: "missing_index sl n = Inr m"
    and loop: "(if n \<le> m
        then for_loop 0 chunks (\<lambda>round. for_loop 0 n (copy_chunk W)) (h, to, sl)
        else for_loop 0 chunks (\<lambda>round. recover_round W n m) (h, to, sl)) = Inr (h', to', sl')"
    by (auto simp: decode_def and_then_eq_Inr split: prod.splits)
  have "advanced (chunks * W) (\<lambda>k. if n \<le> m then k < n else k \<le> n \<and> k \<noteq> m) sl sl'"
  proof (cases "n \<le> m")
    case True
    with loop have "for_loop 0 chunks (\<lambda>round. for_loop 0 n (copy_chunk W)) (h, to, sl)
                      = Inr (h', to', sl')" by simp
    from rounds_loop [where sl_of = outer_slices and T = "\<lambda>k. k < n", OF _ this]
      copy_round_touches [of n W] True
    show ?thesis by (simp add: outer_slices_def)
  next
    case False
    with loop have "for_loop 0 chunks (\<lambda>round. recover_round W n m) (h, to, sl)
                      = Inr (h', to', sl')" by simp
    from rounds_loop [where sl_of = outer_slices and T = "\<lambda>k. k \<le> n \<and> k \<noteq> m", OF _ this]
      recover_round_touches [of W n m] False
    show ?thesis by (simp add: outer_slices_def)
  qed
  with mi show ?thesis by blast
qed

section \<open>The properties of the specification\<close>

subsection \<open>The scenario of the specification\<close>

lemma all_le_2: "(\<forall>k\<le>(2::nat). P k) \<longleftrightarrow> P 0 \<and> P 1 \<and> P 2"
  by (auto simp: le_Suc_eq numeral_2_eq_2)

lemma all_less_2: "(\<forall>k<(2::nat). P k) \<longleftrightarrow> P 0 \<and> P 1"
  by (auto simp: less_Suc_eq numeral_2_eq_2)

lemma all_less_3: "(\<forall>k<(3::nat). P k) \<longleftrightarrow> P 0 \<and> P 1 \<and> P 2"
proof -
  have "k < 3 \<longleftrightarrow> k = 0 \<or> k = 1 \<or> k = 2" for k :: nat by auto
  then show ?thesis by auto
qed

lemma scenario_allocated: "p + k \<le> 50 \<Longrightarrow> allocated scenario p k"
  by (simp add: allocated_iff scenario_def heap_of_def)

lemma scenario_input: "peek scenario 0 5 = [1, 2, 3, 4, 5]"
  by (simp add: peek_def scenario_def heap_of_def upt_conv_Cons)

text \<open>Two data slices of one-byte chunks: two full rounds and a partial one.\<close>

lemma scenario_properties:
  "ida_properties 1 0 (0 + 5) 2 = Inr \<lparr>full_rounds = 2, partial_round = True\<rparr>"
  by (simp add: ida_properties_def to_size_t_def distance_def SIZE_MOD_def)

lemma scenario_num_chunks: "num_chunks \<lparr>full_rounds = 2, partial_round = True\<rparr> = 3"
  by (simp add: num_chunks_def SIZE_MOD_def)

text \<open>The slices at the addresses 10, 20 and 30, the output at 40.\<close>

lemma scenario_encode_buffers:
  "encode_buffers 2 [10, 20, 30] (num_chunks \<lparr>full_rounds = 2, partial_round = True\<rparr> * 1)
     scenario 0 5"
  by (simp add: encode_buffers_def scenario_num_chunks scenario_allocated apart_def all_le_2)

lemma scenario_decode_buffers:
  "decode_buffers 1 2 m [10, 20, 30] (num_chunks \<lparr>full_rounds = 2, partial_round = True\<rparr>)
     scenario 40"
  by (simp add: decode_buffers_def scenario_num_chunks scenario_allocated apart_def all_le_2)

subsection \<open>Round trip\<close>

text \<open>
  Claim C1: for every \<open>n \<ge> 1\<close>, every chunk width (the claim names 1, 2, 4 and 8; any
  \<open>W \<ge> 1\<close> will do) and every input of \<open>s \<ge> 0\<close> bytes, \<^verbatim>\<open>encode_1\<close> into \<open>n + 1\<close> slices
  and then \<^verbatim>\<open>decode\<close> of these slices, none absent, gives an output whose first \<open>s\<close> bytes
  are the input. Both calls return. The caller provides what the interface asks for:
  the slices hold \<open>num_chunks\<close> chunks each and share no byte with each other or with the
  input, the output holds \<open>num_chunks \<cdot> n\<close> chunks and shares no byte with a data slice,
  and \<^verbatim>\<open>decode\<close> gets the array of the original pointers. The sizes are such as fit a
  64-bit address space: the input, and a round over all \<open>n + 1\<close> slices, are shorter
  than \<open>2 ^ 64\<close> bytes.
\<close>

theorem encode_decode_roundtrip:
  assumes "1 \<le> n" and "1 \<le> W" and "(n + 1) * W < SIZE_MOD" and "s < SIZE_MOD"
    and "ida_properties W in_begin (in_begin + s) n = Inr p"
    and "encode_buffers n ps (num_chunks p * W) h in_begin s"
    and "decode_buffers W n (n + 1) ps (num_chunks p) h to"
  shows "\<exists>h1 sl1 h2 sl2.
           encode_1 W h in_begin (in_begin + s) (map Some ps) n = Inr (p, h1, sl1) \<and>
           decode W h1 (map Some ps) n to (num_chunks p) = Inr (h2, sl2) \<and>
           load h2 to s = Inr (peek h in_begin s)"
proof -
  from assms(6) have "slices_missing n (n + 1) ps (map Some ps)"
    by (simp add: slices_missing_def encode_buffers_def)
  from encode_decode_any [OF assms(1-6) _ _ this assms(7) refl]
  show ?thesis by auto
qed

theorem encode_decode_roundtrip_witness:
  "\<exists>h1 sl1 h2 sl2.
     encode_1 1 scenario 0 5 [Some 10, Some 20, Some 30] 2
       = Inr (\<lparr>full_rounds = 2, partial_round = True\<rparr>, h1, sl1) \<and>
     decode 1 h1 [Some 10, Some 20, Some 30] 2 40 3 = Inr (h2, sl2) \<and>
     load h2 40 5 = Inr [1, 2, 3, 4, 5]"
proof -
  have "(1::nat) \<le> 2" "(1::nat) \<le> 1" "(2 + 1) * 1 < SIZE_MOD" "5 < SIZE_MOD"
    by (simp_all add: SIZE_MOD_def)
  from encode_decode_roundtrip [OF this scenario_properties scenario_encode_buffers
      scenario_decode_buffers]
  show ?thesis
    by (simp add: scenario_num_chunks scenario_input)
qed

subsection \<open>One data slice lost\<close>

lemma load_bytes:
  assumes "\<forall>j<k. h (p + j) = Some (f j)"
  shows "load h p k = Inr (map f [0..<k])"
proof -
  from assms have "allocated h p k"
    by (auto simp: allocated_iff) (metis le_add_diff_inverse nat_add_left_cancel_less option.distinct(1))
  moreover from assms have "peek h p k = map f [0..<k]"
    by (intro nth_equalityI) simp_all
  ultimately show ?thesis by (simp add: load_allocated)
qed

text \<open>The chunks that encoding has put into the slices, and decoding into the output.\<close>

lemma enc_heap_chunk:
  assumes "enc_heap W n ps L bs h C 0 h1" and "r < C"
  shows "k < n \<Longrightarrow> load h1 (ps ! k + r * W) W = Inr (map (data_byte W n bs r k) [0..<W])"
    and "load h1 (ps ! n + r * W) W = Inr (map (parity_byte W n bs r) [0..<W])"
  using assms by (auto intro!: load_bytes simp: enc_heap_def)

lemma output_chunk:
  assumes "\<forall>r<C. \<forall>k<n. \<forall>j<W. h2 (to + (r * n + k) * W + j) = Some (data_byte W n bs r k j)"
    and "r < C" and "k < n"
  shows "load h2 (to + (r * n + k) * W) W = Inr (map (data_byte W n bs r k) [0..<W])"
  using assms by (auto intro!: load_bytes)

text \<open>
  Claim C2: for every \<open>n \<ge> 1\<close>, \<open>W \<ge> 1\<close>, input and data slice \<open>i < n\<close>: when
  \<^verbatim>\<open>slices[i]\<close> is null and the other \<open>n\<close> slices are there, \<^verbatim>\<open>decode\<close> returns an output
  whose first \<open>s\<close> bytes are the input, and the slot of slice \<open>i\<close> in each round \<open>r\<close> of
  the output holds the chunk that \<^verbatim>\<open>encode_1\<close> wrote to slice \<open>i\<close> in that round, padding
  included. The buffers are as for C1; slice \<open>i\<close> need not be there any more, and the
  parity slice must not share a byte with the output.
\<close>

theorem decode_recovers_missing_slice:
  assumes "1 \<le> n" and "1 \<le> W" and "(n + 1) * W < SIZE_MOD" and "s < SIZE_MOD"
    and "ida_properties W in_begin (in_begin + s) n = Inr p"
    and "encode_buffers n ps (num_chunks p * W) h in_begin s"
    and "i < n"
    and "decode_buffers W n i ps (num_chunks p) h to"
  shows "\<exists>h1 sl1 h2 sl2.
           encode_1 W h in_begin (in_begin + s) (map Some ps) n = Inr (p, h1, sl1) \<and>
           decode W h1 ((map Some ps)[i := None]) n to (num_chunks p) = Inr (h2, sl2) \<and>
           load h2 to s = Inr (peek h in_begin s) \<and>
           (\<forall>r<num_chunks p.
              load h2 (to + (r * n + i) * W) W = load h1 (ps ! i + r * W) W)"
proof -
  from assms(6,7) have "slices_missing n i ps ((map Some ps)[i := None])"
    by (simp add: slices_missing_def encode_buffers_def nth_list_update)
  from encode_decode_any [OF assms(1-6) _ _ this assms(8) refl] assms(7)
  obtain h1 sl1 h2 sl2 where
    e: "encode_1 W h in_begin (in_begin + s) (map Some ps) n = Inr (p, h1, sl1)"
    and heap1: "enc_heap W n ps (num_chunks p * W) (peek h in_begin s) h (num_chunks p) 0 h1"
    and d: "decode W h1 ((map Some ps)[i := None]) n to (num_chunks p) = Inr (h2, sl2)"
    and slots: "\<forall>r<num_chunks p. \<forall>k<n. \<forall>j<W.
         h2 (to + (r * n + k) * W + j) = Some (data_byte W n (peek h in_begin s) r k j)"
    and out: "load h2 to s = Inr (peek h in_begin s)"
    by auto
  have "load h2 (to + (r * n + i) * W) W = load h1 (ps ! i + r * W) W"
    if "r < num_chunks p" for r
    using enc_heap_chunk(1) [OF heap1 that assms(7)] output_chunk [OF slots that assms(7)]
    by simp
  with e d out show ?thesis by blast
qed

theorem decode_recovers_missing_slice_witness:
  "\<exists>h1 sl1 h2 sl2.
     encode_1 1 scenario 0 5 [Some 10, Some 20, Some 30] 2
       = Inr (\<lparr>full_rounds = 2, partial_round = True\<rparr>, h1, sl1) \<and>
     decode 1 h1 [Some 10, None, Some 30] 2 40 3 = Inr (h2, sl2) \<and>
     load h2 40 5 = Inr [1, 2, 3, 4, 5] \<and>
     load h2 41 1 = load h1 20 1 \<and> load h2 43 1 = load h1 21 1 \<and> load h2 45 1 = load h1 22 1"
proof -
  have "(1::nat) \<le> 2" "(1::nat) \<le> 1" "(2 + 1) * 1 < SIZE_MOD" "5 < SIZE_MOD" "(1::nat) < 2"
    by (simp_all add: SIZE_MOD_def)
  from decode_recovers_missing_slice [OF this(1-4) scenario_properties scenario_encode_buffers
      this(5) scenario_decode_buffers]
  show ?thesis
    by (simp add: scenario_num_chunks scenario_input all_less_3)
qed

subsection \<open>The parity chunk\<close>






subsection \<open>No data slice lost\<close>

text \<open>
  Claim C4: when no slice is absent, or only the parity slice, \<^verbatim>\<open>decode\<close> copies the
  \<open>n\<close> data chunks of each round to the output, in order, and so gives back the input.
  It never reads the parity slice: the entry \<^verbatim>\<open>slices[n]\<close> may be null, the parity pointer
  or any pointer at all, also one into memory that is not there, and \<^verbatim>\<open>decode\<close> returns
  the same and leaves the entry as it was. Only the data slices must be away from the
  output.
\<close>

theorem decode_pass_through:
  assumes "1 \<le> n" and "1 \<le> W" and "(n + 1) * W < SIZE_MOD" and "s < SIZE_MOD"
    and "ida_properties W in_begin (in_begin + s) n = Inr p"
    and "encode_buffers n ps (num_chunks p * W) h in_begin s"
    and "decode_buffers W n n ps (num_chunks p) h to"
  shows "\<exists>h1 sl1.
           encode_1 W h in_begin (in_begin + s) (map Some ps) n = Inr (p, h1, sl1) \<and>
           (\<forall>parity. \<exists>h2 sl2.
              decode W h1 ((map Some ps)[n := parity]) n to (num_chunks p) = Inr (h2, sl2) \<and>
              sl2 ! n = parity \<and>
              (\<forall>r<num_chunks p. \<forall>k<n.
                 load h2 (to + (r * n + k) * W) W = load h1 (ps ! k + r * W) W) \<and>
              load h2 to s = Inr (peek h in_begin s))"
proof -
  let ?bs = "peek h in_begin s" and ?C = "num_chunks p"
  from assms(3) have nW: "n * W < SIZE_MOD" by (simp add: algebra_simps)
  from assms(6) have len: "length ps = n + 1" by (simp add: encode_buffers_def)
  from encode_1_result(1) [OF assms(1,2) nW assms(4-6) refl] obtain h1 sl1 where
    e: "encode_1 W h in_begin (in_begin + s) (map Some ps) n = Inr (p, h1, sl1)"
    and heap1: "enc_heap W n ps (?C * W) ?bs h ?C 0 h1"
    by blast
  have "\<exists>h2 sl2.
          decode W h1 ((map Some ps)[n := parity]) n to ?C = Inr (h2, sl2) \<and>
          sl2 ! n = parity \<and>
          (\<forall>r<?C. \<forall>k<n. load h2 (to + (r * n + k) * W) W = load h1 (ps ! k + r * W) W) \<and>
          load h2 to s = Inr ?bs" for parity
  proof -
    define m where "m = (case parity of None \<Rightarrow> n | Some q \<Rightarrow> n + 1)"
    define qs where "qs = (case parity of None \<Rightarrow> ps | Some q \<Rightarrow> ps[n := q])"
    have m: "n \<le> m" "m \<le> n + 1" by (simp_all add: m_def split: option.splits)
    have qs: "\<forall>k\<le>n. k < n \<or> m < n \<longrightarrow> qs ! k = ps ! k"
      using m by (auto simp: qs_def split: option.splits)
    have sl: "slices_missing n m qs ((map Some ps)[n := parity])"
      using len by (auto simp: slices_missing_def m_def qs_def nth_list_update split: option.splits)
    from assms(7) qs m have dbuf: "decode_buffers W n m qs ?C h to"
      by (auto simp: decode_buffers_def)
    from encode_decode_any [OF assms(1-6) m(2) qs sl dbuf refl] e
    obtain h2 sl2 where
      d: "decode W h1 ((map Some ps)[n := parity]) n to ?C = Inr (h2, sl2)"
      and slices2: "dec_slices W n m qs ?C 0 ?C sl2"
      and slots: "\<forall>r<?C. \<forall>k<n. \<forall>j<W.
         h2 (to + (r * n + k) * W + j) = Some (data_byte W n ?bs r k j)"
      and out: "load h2 to s = Inr ?bs"
      by auto
    from slices2 m len have "sl2 ! n = parity"
      by (auto simp: dec_slices_def m_def qs_def split: option.splits)
    moreover have "load h2 (to + (r * n + k) * W) W = load h1 (ps ! k + r * W) W"
      if "r < ?C" "k < n" for r k
      using enc_heap_chunk(1) [OF heap1 that] output_chunk [OF slots that] by simp
    ultimately show ?thesis using d out by blast
  qed
  with e show ?thesis by blast
qed

theorem decode_pass_through_witness:
  "\<exists>h1 sl1.
     encode_1 1 scenario 0 5 [Some 10, Some 20, Some 30] 2
       = Inr (\<lparr>full_rounds = 2, partial_round = True\<rparr>, h1, sl1) \<and>
     (\<exists>h2 sl2. decode 1 h1 [Some 10, Some 20, None] 2 40 3 = Inr (h2, sl2) \<and>
        sl2 ! 2 = None \<and> load h2 40 5 = Inr [1, 2, 3, 4, 5]) \<and>
     (\<exists>h2 sl2. decode 1 h1 [Some 10, Some 20, Some 999] 2 40 3 = Inr (h2, sl2) \<and>
        sl2 ! 2 = Some 999 \<and> load h2 40 5 = Inr [1, 2, 3, 4, 5])"
proof -
  have "(1::nat) \<le> 2" "(1::nat) \<le> 1" "(2 + 1) * 1 < SIZE_MOD" "5 < SIZE_MOD"
    by (simp_all add: SIZE_MOD_def)
  from decode_pass_through [OF this scenario_properties scenario_encode_buffers
      scenario_decode_buffers]
  obtain h1 sl1 where
    e: "encode_1 1 scenario 0 (0 + 5) (map Some [10, 20, 30]) 2
          = Inr (\<lparr>full_rounds = 2, partial_round = True\<rparr>, h1, sl1)"
    and d: "\<And>parity. \<exists>h2 sl2.
          decode 1 h1 ((map Some [10, 20, 30])[2 := parity]) 2 40
            (num_chunks \<lparr>full_rounds = 2, partial_round = True\<rparr>) = Inr (h2, sl2) \<and>
          sl2 ! 2 = parity \<and>
          load h2 40 5 = Inr (peek scenario 0 5)"
    by blast
  from e d [of None] d [of "Some 999"] show ?thesis
    by (simp add: scenario_num_chunks scenario_input)
qed

subsection \<open>The properties\<close>

text \<open>Every byte of a slice lies in one of its chunks.\<close>

lemma slice_bytes:
  assumes "enc_heap W n ps (C * W) bs h C 0 h1" and "k < n"
  shows "load h1 (ps ! k) (C * W)
           = Inr (map (\<lambda>x. data_byte W n bs (x div W) k (x mod W)) [0..<C * W])"
proof (rule load_bytes, intro allI impI)
  fix x assume x: "x < C * W"
  from assms(1) have chunk: "h1 (ps ! k + r * W + j) = Some (data_byte W n bs r k j)"
    if "k < n" "j < W" "r < C" for r k j
    using that by (simp add: enc_heap_def)
  from x have "0 < W" by (cases W) simp_all
  with x have "x div W < C" "x mod W < W" by (simp_all add: less_mult_imp_div_less)
  from chunk [OF assms(2) this(2,1)]
  have "h1 (ps ! k + x div W * W + x mod W) = Some (data_byte W n bs (x div W) k (x mod W))" .
  moreover have "ps ! k + x div W * W + x mod W = ps ! k + x"
    by (simp add: add.assoc)
  ultimately show "h1 (ps ! k + x) = Some (data_byte W n bs (x div W) k (x mod W))"
    by simp
qed

text \<open>
  Claim C5 says that for every input length, \<open>W \<ge> 1\<close> and \<open>n \<ge> 1\<close> the properties are
  \<open>full_rounds = s div (n \<cdot> W)\<close> and \<open>partial_round = (s mod (n \<cdot> W) \<noteq> 0)\<close>. The code
  computes the round size \<open>n \<cdot> W\<close> in \<^verbatim>\<open>size_t\<close>: for \<open>n = 2 ^ 63 + 1\<close> and two-byte chunks
  it wraps around to \<open>2\<close>, and an input of three bytes gets one full round, not none.
\<close>

theorem properties_wrap_around:
  "ida_properties 2 0 (0 + 3) (2 ^ 63 + 1) = Inr \<lparr>full_rounds = 1, partial_round = True\<rparr>
   \<and> (3::nat) div ((2 ^ 63 + 1) * 2) = 0"
  by (simp add: ida_properties_def to_size_t_def distance_def SIZE_MOD_def)

text \<open>
  Claim C5, as amended: when \<open>n \<cdot> W\<close> does not wrap around (and the input is shorter than
  \<open>2 ^ 64\<close> bytes), the properties are as the claim says and \<open>num_chunks\<close> is their sum.
  \<^verbatim>\<open>encode_1\<close> then gives each data slice \<open>num_chunks \<cdot> W\<close> bytes: it leaves the pointer
  that many bytes further, these bytes hold the chunks of the slice, and no byte outside
  the \<open>num_chunks \<cdot> W\<close> bytes of each slice has changed.
\<close>

theorem properties_arithmetic:
  assumes "1 \<le> n" and "1 \<le> W" and "n * W < SIZE_MOD" and "s < SIZE_MOD"
    and "p = \<lparr>full_rounds = s div (n * W), partial_round = (s mod (n * W) \<noteq> 0)\<rparr>"
  shows "ida_properties W in_begin (in_begin + s) n = Inr p \<and>
         num_chunks p = full_rounds p + (if partial_round p then 1 else 0) \<and>
         (encode_buffers n ps (num_chunks p * W) h in_begin s \<longrightarrow>
            (\<exists>h1 sl1.
               encode_1 W h in_begin (in_begin + s) (map Some ps) n = Inr (p, h1, sl1) \<and>
               (\<forall>k<n. sl1 ! k = Some (ps ! k + num_chunks p * W) \<and>
                  load h1 (ps ! k) (num_chunks p * W) =
                    Inr (map (\<lambda>x. data_byte W n (peek h in_begin s) (x div W) k (x mod W))
                           [0..<num_chunks p * W])) \<and>
               (\<forall>a. (\<forall>k\<le>n. a < ps ! k \<or> ps ! k + num_chunks p * W \<le> a) \<longrightarrow> h1 a = h a)))"
proof (intro conjI impI)
  show props: "ida_properties W in_begin (in_begin + s) n = Inr p"
    unfolding assms(5) using assms(1-4) by (rule ida_properties_input)
  show "num_chunks p = full_rounds p + (if partial_round p then 1 else 0)"
    using num_chunks_input [OF assms(4), of "n * W"] by (simp add: assms(5))
  assume buf: "encode_buffers n ps (num_chunks p * W) h in_begin s"
  from encode_1_result(1) [OF assms(1-4) props buf refl] obtain h1 sl1 where
    e: "encode_1 W h in_begin (in_begin + s) (map Some ps) n = Inr (p, h1, sl1)"
    and heap1: "enc_heap W n ps (num_chunks p * W) (peek h in_begin s) h (num_chunks p) 0 h1"
    and slices1: "enc_slices W n ps (num_chunks p) 0 sl1"
    by blast
  from slices1 have "\<forall>k<n. sl1 ! k = Some (ps ! k + num_chunks p * W)"
    by (simp add: enc_slices_def)
  moreover note slice_bytes [OF heap1]
  moreover from heap1
  have "\<forall>a. (\<forall>k\<le>n. a < ps ! k \<or> ps ! k + num_chunks p * W \<le> a) \<longrightarrow> h1 a = h a"
    by (simp add: enc_heap_def)
  ultimately show "\<exists>h1 sl1.
       encode_1 W h in_begin (in_begin + s) (map Some ps) n = Inr (p, h1, sl1) \<and>
       (\<forall>k<n. sl1 ! k = Some (ps ! k + num_chunks p * W) \<and>
          load h1 (ps ! k) (num_chunks p * W) =
            Inr (map (\<lambda>x. data_byte W n (peek h in_begin s) (x div W) k (x mod W))
                   [0..<num_chunks p * W])) \<and>
       (\<forall>a. (\<forall>k\<le>n. a < ps ! k \<or> ps ! k + num_chunks p * W \<le> a) \<longrightarrow> h1 a = h a)"
    using e by blast
qed

theorem properties_arithmetic_witness:
  "ida_properties 1 0 5 2 = Inr \<lparr>full_rounds = 2, partial_round = True\<rparr> \<and>
   num_chunks \<lparr>full_rounds = 2, partial_round = True\<rparr> = 2 + 1 \<and>
   (\<exists>h1 sl1.
      encode_1 1 scenario 0 5 [Some 10, Some 20, Some 30] 2
        = Inr (\<lparr>full_rounds = 2, partial_round = True\<rparr>, h1, sl1) \<and>
      sl1 ! 0 = Some 13 \<and> load h1 10 3 = Inr [1, 3, 5] \<and>
      sl1 ! 1 = Some 23 \<and> load h1 20 3 = Inr [2, 4, 0])"
proof -
  have "(1::nat) \<le> 2" "(1::nat) \<le> 1" "2 * 1 < SIZE_MOD" "5 < SIZE_MOD"
    "\<lparr>full_rounds = 2, partial_round = True\<rparr>
       = \<lparr>full_rounds = 5 div (2 * 1), partial_round = (5 mod (2 * 1) \<noteq> (0::nat))\<rparr>"
    by (simp_all add: SIZE_MOD_def)
  from properties_arithmetic [OF this, of 0 "[10, 20, 30]" scenario] scenario_encode_buffers
  show ?thesis
    by (auto simp: scenario_num_chunks scenario_input all_less_2 all_le_2 upt_conv_Cons
          data_byte_def padded_def)
qed

subsection \<open>The partial round\<close>

text \<open>A chunk of the input, with zero bytes where the input has ended.\<close>

lemma padded_chunk:
  "map (\<lambda>j. padded bs (x + j)) [0..<W]
     = take W (drop x bs) @ replicate (W - min (length bs - x) W) 0"
proof (rule nth_equalityI)
  show "length (map (\<lambda>j. padded bs (x + j)) [0..<W])
          = length (take W (drop x bs) @ replicate (W - min (length bs - x) W) 0)"
    by (simp add: min_def)
next
  fix j assume "j < length (map (\<lambda>j. padded bs (x + j)) [0..<W])"
  then have j: "j < W" by simp
  show "map (\<lambda>j. padded bs (x + j)) [0..<W] ! j
          = (take W (drop x bs) @ replicate (W - min (length bs - x) W) 0) ! j"
  proof (cases "x + j < length bs")
    case True
    then have "j < length bs - x" by simp
    with True j show ?thesis by (simp add: padded_def nth_append)
  next
    case False
    then have short: "length bs - x \<le> j" by simp
    with j have "min (length bs - x) W = length bs - x" by simp
    moreover from short j have "j - (length bs - x) < W - (length bs - x)" by simp
    ultimately show ?thesis using False short j
      by (simp add: padded_def nth_append min.commute)
  qed
qed

text \<open>The state in which the full rounds of \<^verbatim>\<open>encode_1\<close> leave the heap, the cursor and the array.\<close>

lemma encode_full_rounds:
  assumes n: "1 \<le> n" and W: "1 \<le> W" and nW: "n * W < SIZE_MOD" and fits: "s < SIZE_MOD"
    and props: "ida_properties W in_begin (in_begin + s) n = Inr p"
    and buf: "encode_buffers n ps (num_chunks p * W) h in_begin s"
  shows "\<exists>st. for_loop 0 (full_rounds p) (\<lambda>round. encode_full_round W n)
                (h, in_begin, map Some ps) = Inr st
           \<and> enc_outer W n ps (num_chunks p * W) (peek h in_begin s) h in_begin (full_rounds p) st"
proof (rule for_loop_total
    [where I = "enc_outer W n ps (num_chunks p * W) (peek h in_begin s) h in_begin"])
  show "enc_outer W n ps (num_chunks p * W) (peek h in_begin s) h in_begin 0
          (h, in_begin, map Some ps)"
    using buf by (simp add: enc_outer_start encode_buffers_def)
next
  fix r st
  assume "0 \<le> r" and r: "r < full_rounds p"
    and inv: "enc_outer W n ps (num_chunks p * W) (peek h in_begin s) h in_begin r st"
  from props ida_properties_input [OF n W nW fits, of in_begin]
  have p: "p = \<lparr>full_rounds = s div (n * W), partial_round = (s mod (n * W) \<noteq> 0)\<rparr>"
    by simp
  from r encode_1_result(2) [OF n W nW fits props buf refl] have "r < num_chunks p" by simp
  moreover from r have "Suc r * (n * W) \<le> s div (n * W) * (n * W)"
    by (intro mult_le_mono1) (simp add: p)
  then have "Suc r * (n * W) \<le> s"
    by (metis div_mult_mod_eq le_add1 le_trans)
  ultimately show "\<exists>st'. encode_full_round W n st = Inr st'
      \<and> enc_outer W n ps (num_chunks p * W) (peek h in_begin s) h in_begin (Suc r) st'"
    using encode_full_round_step [OF buf refl refl _ _ inv] by blast
qed simp

text \<open>
  Claim C6: the partial round of \<^verbatim>\<open>encode_1\<close> (lines 148-168), run on the state \<open>st\<close> that
  the full rounds leave. Before slice \<open>i\<close> the cursor stands
  \<open>min s ((full_rounds \<cdot> n + i) \<cdot> W)\<close> bytes into the input: each chunk has moved it by
  the bytes read, \<open>min\<close> of the bytes that remained and \<open>W\<close>, and not by \<open>W\<close>, so that
  it never passes the end of the input and stands there when the round is over. The
  chunk that \<^verbatim>\<open>encode_1\<close> leaves in slice \<open>k\<close> for this round is these
  \<open>min (s - (full_rounds \<cdot> n + k) \<cdot> W) W\<close> bytes of the input followed by zero bytes up
  to the width \<open>W\<close>, all \<open>W\<close> bytes of it. The buffers are as the interface asks.
\<close>

theorem partial_round_pads_short_chunks:
  assumes "1 \<le> n" and "1 \<le> W" and "n * W < SIZE_MOD" and "s < SIZE_MOD"
    and "ida_properties W in_begin (in_begin + s) n = Inr p"
    and "partial_round p"
    and "encode_buffers n ps (num_chunks p * W) h in_begin s"
  shows "\<exists>st h1 sl1.
           for_loop 0 (full_rounds p) (\<lambda>round. encode_full_round W n)
               (h, in_begin, map Some ps) = Inr st \<and>
           (\<forall>i\<le>n. \<exists>h' sl' parity.
              for_loop 0 i (encode_chunk_padded W (in_begin + s)) (st, zero_chunk W)
                = Inr ((h', in_begin + min s ((full_rounds p * n + i) * W), sl'), parity)) \<and>
           encode_partial_round W (in_begin + s) n st = Inr (h1, in_begin + s, sl1) \<and>
           encode_1 W h in_begin (in_begin + s) (map Some ps) n = Inr (p, h1, sl1) \<and>
           (\<forall>k<n. load h1 (ps ! k + full_rounds p * W) W =
                     Inr (take W (drop ((full_rounds p * n + k) * W) (peek h in_begin s))
                          @ replicate (W - min (s - (full_rounds p * n + k) * W) W) 0))"
proof -
  let ?bs = "peek h in_begin s" and ?L = "num_chunks p * W" and ?F = "full_rounds p"
  let ?I = "enc_inner W n ps ?L ?bs h in_begin ?F"
  note nc = encode_1_result(2,3) [OF assms(1-5,7) refl]
  from nc(1) assms(6) have NC: "num_chunks p = Suc ?F" by simp
  then have F: "?F < num_chunks p" by simp
  from encode_full_rounds [OF assms(1-5,7)] obtain st where
    full: "for_loop 0 ?F (\<lambda>round. encode_full_round W n) (h, in_begin, map Some ps) = Inr st"
    and outer: "enc_outer W n ps ?L ?bs h in_begin ?F st"
    by blast
  have prefix: "\<exists>h' sl' parity.
      for_loop 0 i (encode_chunk_padded W (in_begin + s)) (st, zero_chunk W)
        = Inr ((h', in_begin + min s ((?F * n + i) * W), sl'), parity)" if i: "i \<le> n" for i
  proof -
    have "\<exists>st1. for_loop 0 i (encode_chunk_padded W (in_begin + s)) (st, zero_chunk W) = Inr st1
            \<and> ?I i st1"
    proof (rule for_loop_total [where I = ?I])
      show "?I 0 (st, zero_chunk W)" using outer by (rule enc_outer_inner)
    next
      fix k st1
      assume "0 \<le> k" and "k < i" and inv: "?I k st1"
      with i have k: "k < n" by simp
      from encode_chunk_padded_step [OF assms(7) refl refl F k assms(4) refl inv]
      show "\<exists>st'. encode_chunk_padded W (in_begin + s) k st1 = Inr st' \<and> ?I (Suc k) st'" .
    qed simp
    then obtain h' ib' sl' parity where
      loop: "for_loop 0 i (encode_chunk_padded W (in_begin + s)) (st, zero_chunk W)
               = Inr ((h', ib', sl'), parity)"
      and inv: "?I i ((h', ib', sl'), parity)"
      by (metis prod.collapse)
    from inv have "ib' = in_begin + min s ((?F * n + i) * W)" by (simp add: enc_inner_def)
    with loop show ?thesis by blast
  qed
  from encode_partial_round_step [OF assms(7) refl refl F assms(4) outer]
  obtain h1 ib1 sl1 where
    part: "encode_partial_round W (in_begin + s) n st = Inr (h1, ib1, sl1)"
    and outer1: "enc_outer W n ps ?L ?bs h in_begin (Suc ?F) (h1, ib1, sl1)"
    by (metis prod.collapse)
  from outer1 nc(2) NC have ib1: "ib1 = in_begin + s"
    by (simp add: enc_outer_def)
  from outer1 NC have heap1: "enc_heap W n ps ?L ?bs h (num_chunks p) 0 h1"
    by (simp add: enc_outer_def)
  have e: "encode_1 W h in_begin (in_begin + s) (map Some ps) n = Inr (p, h1, sl1)"
    by (simp add: encode_1_def assms(5,6) full part)
  have "load h1 (ps ! k + ?F * W) W =
          Inr (take W (drop ((?F * n + k) * W) ?bs)
               @ replicate (W - min (s - (?F * n + k) * W) W) 0)" if k: "k < n" for k
  proof -
    from heap1 F k have "\<forall>j<W. h1 (ps ! k + ?F * W + j) = Some (padded ?bs ((?F * n + k) * W + j))"
      by (simp add: enc_heap_def data_byte_def)
    from load_bytes [OF this] padded_chunk [of ?bs "(?F * n + k) * W" W]
    show ?thesis by simp
  qed
  with full prefix part ib1 e show ?thesis by blast
qed

theorem partial_round_pads_short_chunks_witness:
  "\<exists>st h1 sl1.
     for_loop 0 1 (\<lambda>round. encode_full_round 2 2) (scenario, 0, [Some 10, Some 20, Some 30])
       = Inr st \<and>
     (\<exists>h' sl' parity. for_loop 0 1 (encode_chunk_padded 2 5) (st, zero_chunk 2)
        = Inr ((h', 5, sl'), parity)) \<and>
     encode_partial_round 2 5 2 st = Inr (h1, 5, sl1) \<and>
     encode_1 2 scenario 0 5 [Some 10, Some 20, Some 30] 2
       = Inr (\<lparr>full_rounds = 1, partial_round = True\<rparr>, h1, sl1) \<and>
     load h1 12 2 = Inr [5, 0] \<and> load h1 22 2 = Inr [0, 0]"
proof -
  let ?p = "\<lparr>full_rounds = 1, partial_round = True\<rparr>"
  have nc: "num_chunks ?p = 2" by (simp add: num_chunks_def SIZE_MOD_def)
  have buf: "encode_buffers 2 [10, 20, 30] (num_chunks ?p * 2) scenario 0 5"
    unfolding nc
    by (simp add: encode_buffers_def scenario_allocated apart_def all_le_2)
  have "(1::nat) \<le> 2" "(1::nat) \<le> 2" "2 * 2 < SIZE_MOD" "5 < SIZE_MOD"
    "ida_properties 2 0 (0 + 5) 2 = Inr ?p" "partial_round ?p"
    by (simp_all add: SIZE_MOD_def ida_properties_def to_size_t_def distance_def)
  from partial_round_pads_short_chunks [OF this buf]
  obtain st h1 sl1 where
    "for_loop 0 (full_rounds ?p) (\<lambda>round. encode_full_round 2 2)
       (scenario, 0, map Some [10, 20, 30]) = Inr st"
    and pre: "\<forall>i\<le>2. \<exists>h' sl' parity.
       for_loop 0 i (encode_chunk_padded 2 (0 + 5)) (st, zero_chunk 2)
         = Inr ((h', 0 + min 5 ((full_rounds ?p * 2 + i) * 2), sl'), parity)"
    and "encode_partial_round 2 (0 + 5) 2 st = Inr (h1, 0 + 5, sl1)"
    and "encode_1 2 scenario 0 (0 + 5) (map Some [10, 20, 30]) 2 = Inr (?p, h1, sl1)"
    and "\<forall>k<2. load h1 ([10, 20, 30] ! k + full_rounds ?p * 2) 2 =
           Inr (take 2 (drop ((full_rounds ?p * 2 + k) * 2) (peek scenario 0 5))
                @ replicate (2 - min (5 - (full_rounds ?p * 2 + k) * 2) 2) 0)"
    by blast
  moreover from pre [rule_format, of 1] have "\<exists>h' sl' parity.
       for_loop 0 1 (encode_chunk_padded 2 (0 + 5)) (st, zero_chunk 2)
         = Inr ((h', 0 + min 5 ((full_rounds ?p * 2 + 1) * 2), sl'), parity)"
    by simp
  moreover have "replicate 2 (0::byte) = [0, 0]" by (simp add: numeral_2_eq_2)
  ultimately show ?thesis
    by (simp add: scenario_input all_less_2)
qed

subsection \<open>The array of slice pointers\<close>

text \<open>
  Claim C10: both functions move the pointers in the caller's array. When \<^verbatim>\<open>encode_1\<close>
  returns, each of the entries \<open>0, ..., n\<close> stands \<open>num_chunks \<cdot> W\<close> bytes behind where it
  stood, and the array is otherwise as it was. When \<^verbatim>\<open>decode\<close> returns, \<open>m\<close> being the
  index it took for the missing one, each entry it read through stands \<open>chunks \<cdot> W\<close>
  bytes further: the data slices in the pass-through case (\<open>n \<le> m\<close>), all slices but
  \<open>m\<close> in the recovery case; the other entries are as they were. So an array that has
  been through a call no longer points at the start of the slices. That the calls
  return, given the buffers, is part of the theorems for C1 and C2.
\<close>

theorem slice_pointers_advanced:
  "(encode_1 W h in_begin in_end sl n = Inr (p, h1, sl1) \<longrightarrow>
      length sl1 = length sl \<and>
      (\<forall>k<length sl. \<forall>q. k \<le> n \<and> sl ! k = Some q \<longrightarrow> sl1 ! k = Some (q + num_chunks p * W)) \<and>
      (\<forall>k<length sl. n < k \<longrightarrow> sl1 ! k = sl ! k))
   \<and> (decode W g sl n to chunks = Inr (h2, sl2) \<longrightarrow>
      (\<exists>m. missing_index sl n = Inr m \<and> length sl2 = length sl \<and>
         (\<forall>k<length sl. \<forall>q. (if n \<le> m then k < n else k \<le> n \<and> k \<noteq> m) \<and> sl ! k = Some q
            \<longrightarrow> sl2 ! k = Some (q + chunks * W)) \<and>
         (\<forall>k<length sl. \<not> (if n \<le> m then k < n else k \<le> n \<and> k \<noteq> m) \<longrightarrow> sl2 ! k = sl ! k)))"
proof (rule conjI; rule impI)
  assume "encode_1 W h in_begin in_end sl n = Inr (p, h1, sl1)"
  from encode_1_advances [OF this]
  show "length sl1 = length sl \<and>
      (\<forall>k<length sl. \<forall>q. k \<le> n \<and> sl ! k = Some q \<longrightarrow> sl1 ! k = Some (q + num_chunks p * W)) \<and>
      (\<forall>k<length sl. n < k \<longrightarrow> sl1 ! k = sl ! k)"
    by (auto simp: advanced_def)
next
  assume "decode W g sl n to chunks = Inr (h2, sl2)"
  from decode_advances [OF this] obtain m where mi: "missing_index sl n = Inr m"
    and adv: "advanced (chunks * W) (\<lambda>k. if n \<le> m then k < n else k \<le> n \<and> k \<noteq> m) sl sl2"
    by blast
  from adv have "length sl2 = length sl \<and>
         (\<forall>k<length sl. \<forall>q. (if n \<le> m then k < n else k \<le> n \<and> k \<noteq> m) \<and> sl ! k = Some q
            \<longrightarrow> sl2 ! k = Some (q + chunks * W)) \<and>
         (\<forall>k<length sl. \<not> (if n \<le> m then k < n else k \<le> n \<and> k \<noteq> m) \<longrightarrow> sl2 ! k = sl ! k)"
    unfolding advanced_def by simp
  with mi show "\<exists>m. missing_index sl n = Inr m \<and> length sl2 = length sl \<and>
         (\<forall>k<length sl. \<forall>q. (if n \<le> m then k < n else k \<le> n \<and> k \<noteq> m) \<and> sl ! k = Some q
            \<longrightarrow> sl2 ! k = Some (q + chunks * W)) \<and>
         (\<forall>k<length sl. \<not> (if n \<le> m then k < n else k \<le> n \<and> k \<noteq> m) \<longrightarrow> sl2 ! k = sl ! k)"
    by blast
qed

theorem slice_pointers_advanced_witness:
  "\<exists>h1 sl1 h2 sl2.
     encode_1 1 scenario 0 5 [Some 10, Some 20, Some 30] 2
       = Inr (\<lparr>full_rounds = 2, partial_round = True\<rparr>, h1, sl1) \<and>
     sl1 ! 0 = Some 13 \<and> sl1 ! 1 = Some 23 \<and> sl1 ! 2 = Some 33 \<and>
     decode 1 h1 [Some 10, None, Some 30] 2 40 3 = Inr (h2, sl2) \<and>
     sl2 ! 0 = Some 13 \<and> sl2 ! 1 = None \<and> sl2 ! 2 = Some 33"
proof -
  let ?p = "\<lparr>full_rounds = 2, partial_round = True\<rparr>"
  have "(1::nat) \<le> 2" "(1::nat) \<le> 1" "(2 + 1) * 1 < SIZE_MOD" "5 < SIZE_MOD"
    by (simp_all add: SIZE_MOD_def)
  moreover have "slices_missing 2 1 [10, 20, 30] [Some 10, None, Some 30]"
    by (simp add: slices_missing_def all_le_2)
  ultimately obtain h1 sl1 h2 sl2 where
    e: "encode_1 1 scenario 0 5 [Some 10, Some 20, Some 30] 2 = Inr (?p, h1, sl1)"
    and d: "decode 1 h1 [Some 10, None, Some 30] 2 40 3 = Inr (h2, sl2)"
    using encode_decode_any [OF _ _ _ _ scenario_properties scenario_encode_buffers _ _ _
        scenario_decode_buffers refl, of 1 "[Some 10, None, Some 30]"]
    by (auto simp: scenario_num_chunks)
  have mi: "missing_index [Some 10, None, Some 30] 2 = Inr 1"
    by (simp add: missing_index_def SIZE_MOD_def)
  from slice_pointers_advanced [of 1 scenario 0 5 "[Some 10, Some 20, Some 30]" 2 ?p h1 sl1
      h1 40 3 h2 sl2] e
  have "sl1 ! 0 = Some 13 \<and> sl1 ! 1 = Some 23 \<and> sl1 ! 2 = Some 33"
    by (simp add: scenario_num_chunks all_less_3)
  moreover
  from slice_pointers_advanced [of 1 h1 0 5 "[Some 10, None, Some 30]" 2 ?p h1 sl1
      h1 40 3 h2 sl2] d mi
  have "sl2 ! 0 = Some 13 \<and> sl2 ! 1 = None \<and> sl2 ! 2 = Some 33"
    by (simp add: all_less_3)
  ultimately show ?thesis using e d by blast
qed

section \<open>Parameters and absent slices that the code does not check\<close>

subsection \<open>The faults of encode_1\<close>

lemma encode_chunk_fault:
  "encode_chunk W i s = Inl e \<Longrightarrow> e = OutOfBounds \<or> e = NullDereference"
  by (cases s)
    (auto simp: encode_chunk_def from_bytes_cast_def to_bytes_cast_def and_then_eq_Inl
          dest: load_fault store_fault slice_ptr_fault)

lemma encode_chunk_padded_fault:
  "encode_chunk_padded W in_end i s = Inl e \<Longrightarrow> e = OutOfBounds \<or> e = NullDereference"
  by (cases s)
    (auto simp: encode_chunk_padded_def from_bytes_cast_padded_def to_bytes_cast_def
          and_then_eq_Inl Let_def
          dest: load_fault store_fault slice_ptr_fault split: if_splits)

lemma write_parity_fault:
  "write_parity W n s = Inl e \<Longrightarrow> e = OutOfBounds \<or> e = NullDereference"
  by (cases s)
    (auto simp: write_parity_def to_bytes_cast_def and_then_eq_Inl
          dest: store_fault slice_ptr_fault)

lemma encode_full_round_fault:
  "encode_full_round W n st = Inl e \<Longrightarrow> e = OutOfBounds \<or> e = NullDereference"
  by (auto simp: encode_full_round_def and_then_eq_Inl
        dest!: for_loop_fault encode_chunk_fault write_parity_fault)

lemma encode_partial_round_fault:
  "encode_partial_round W in_end n st = Inl e \<Longrightarrow> e = OutOfBounds \<or> e = NullDereference"
  by (auto simp: encode_partial_round_def and_then_eq_Inl
        dest!: for_loop_fault encode_chunk_padded_fault write_parity_fault)

subsection \<open>Zero slices\<close>

text \<open>
  Claim C8 says that \<^verbatim>\<open>encode_1\<close> and the properties computation reject \<open>n = 0\<close> or
  \<open>W = 0\<close> with an InvalidParameter error and never divide by zero. The code has no such
  error and no check: with \<open>n = 0\<close> the round size is \<open>0\<close> and \<^verbatim>\<open>s / round_size\<close> divides
  by zero, in \<^verbatim>\<open>ida_properties\<close> and so in \<^verbatim>\<open>encode_1\<close>, which calls it first.
\<close>

theorem ida_properties_zero_slices_divides:
  "ida_properties 1 0 5 0 = Inl DivisionByZero
   \<and> encode_1 1 (\<lambda>a. None) 0 5 [Some 8] 0 = Inl DivisionByZero"
  by (simp add: ida_properties_def encode_1_def)

text \<open>
  Claim C8, as amended: \<open>n \<ge> 1\<close> is a precondition of the caller's (and \<open>W \<ge> 1\<close> holds of
  every \<^verbatim>\<open>sizeof\<close>). Under it, and when \<open>n \<cdot> W\<close> does not wrap around in \<^verbatim>\<open>size_t\<close>, the
  properties computation returns normally and \<^verbatim>\<open>encode_1\<close> never divides by zero.
\<close>

theorem encode_no_division_by_zero:
  assumes "1 \<le> n" and "1 \<le> W" and "n * W < SIZE_MOD"
  shows "(\<exists>p. ida_properties W in_begin in_end n = Inr p)
       \<and> encode_1 W h in_begin in_end sl n \<noteq> Inl DivisionByZero"
proof
  show "\<exists>p. ida_properties W in_begin in_end n = Inr p"
    using ida_properties_defined [OF assms] by blast
  then obtain p where p: "ida_properties W in_begin in_end n = Inr p" ..
  show "encode_1 W h in_begin in_end sl n \<noteq> Inl DivisionByZero"
  proof
    assume "encode_1 W h in_begin in_end sl n = Inl DivisionByZero"
    with p consider
      "for_loop 0 (full_rounds p) (\<lambda>round. encode_full_round W n) (h, in_begin, sl)
         = Inl DivisionByZero"
      | st where "partial_round p" "encode_partial_round W in_end n st = Inl DivisionByZero"
      by (auto simp: encode_1_def and_then_eq_Inl split: if_splits prod.splits)
    then show False
    proof cases
      case 1
      from for_loop_fault [OF this] show False
        by (auto dest: encode_full_round_fault)
    next
      case 2
      then show False by (auto dest: encode_partial_round_fault)
    qed
  qed
qed

theorem encode_no_division_by_zero_witness:
  "(\<exists>p. ida_properties 1 0 5 2 = Inr p)
   \<and> encode_1 1 (\<lambda>a. None) 0 5 [Some 8] 2 \<noteq> Inl DivisionByZero"
  using encode_no_division_by_zero [of 2 1 0 5 "\<lambda>a. None" "[Some 8]"]
  by (simp add: SIZE_MOD_def)

subsection \<open>More than one absent slice\<close>

text \<open>The entries of \<^verbatim>\<open>slices\<close> that the loops of the recovery case leave alone.\<close>

lemma recover_chunk_keeps:
  assumes "recover_chunk W i ((h, to, sl), r) = Inr ((h', to', sl'), r')" and "b \<noteq> i"
  shows "sl' ! b = sl ! b" and "length sl' = length sl"
  using assms by (auto simp: recover_chunk_def and_then_eq_Inr)

lemma recover_chunk_null:
  assumes "sl ! i = None"
  shows "recover_chunk W i ((h, to, sl), r) \<noteq> Inr s'"
  using assms by (auto simp: recover_chunk_def and_then_eq_Inr slice_ptr_eq_Inr)

lemma recover_loop_null:
  assumes "lo \<le> b" and "b < hi" and "sl ! b = None"
  shows "\<exists>e. for_loop lo hi (recover_chunk W) ((h, to, sl), r) = Inl e"
proof (cases "for_loop lo hi (recover_chunk W) ((h, to, sl), r)")
  case (Inl e)
  then show ?thesis by blast
next
  case (Inr s')
  have "(\<lambda>i ((h, to, sl), r). i \<le> b \<and> sl ! b = None) hi s'"
  proof (rule for_loop_partial [OF Inr])
    show "lo \<le> hi" using assms by simp
    show "(\<lambda>i ((h, to, sl), r). i \<le> b \<and> sl ! b = None) lo ((h, to, sl), r)"
      using assms by simp
  next
    fix i s s1
    assume "lo \<le> i" "i < hi"
      and inv: "(\<lambda>i ((h, to, sl), r). i \<le> b \<and> sl ! b = None) i s"
      and body: "recover_chunk W i s = Inr s1"
    obtain h to sl r where s: "s = ((h, to, sl), r)" by (cases s) auto
    obtain h1 to1 sl1 r1 where s1: "s1 = ((h1, to1, sl1), r1)" by (cases s1) auto
    from inv s have le: "i \<le> b" and null: "sl ! b = None" by auto
    from body recover_chunk_null [of sl b W h to r s1] null s have "i \<noteq> b" by auto
    with le recover_chunk_keeps [of W i h to sl r h1 to1 sl1 r1 b] body s s1 null
    show "(\<lambda>i ((h, to, sl), r). i \<le> b \<and> sl ! b = None) (Suc i) s1"
      by auto
  qed
  with assms show ?thesis by (auto split: prod.splits)
qed

lemma recover_loop_keeps:
  assumes "for_loop lo hi (recover_chunk W) ((h, to, sl), r) = Inr ((h', to', sl'), r')"
    and "lo \<le> hi" and "hi \<le> b"
  shows "sl' ! b = sl ! b"
proof -
  have "(\<lambda>i ((h1, to1, sl1), r1). sl1 ! b = sl ! b) hi ((h', to', sl'), r')"
  proof (rule for_loop_partial [OF assms(1,2)])
    show "(\<lambda>i ((h1, to1, sl1), r1). sl1 ! b = sl ! b) lo ((h, to, sl), r)" by simp
  next
    fix i s s1
    assume "lo \<le> i" "i < hi"
      and inv: "(\<lambda>i ((h1, to1, sl1), r1). sl1 ! b = sl ! b) i s"
      and body: "recover_chunk W i s = Inr s1"
    obtain h2 to2 sl2 r2 where s: "s = ((h2, to2, sl2), r2)" by (cases s) auto
    obtain h3 to3 sl3 r3 where s1: "s1 = ((h3, to3, sl3), r3)" by (cases s1) auto
    from \<open>i < hi\<close> assms(3) have "b \<noteq> i" by simp
    from recover_chunk_keeps(1) [OF body [unfolded s s1] this] inv s s1
    show "(\<lambda>i ((h1, to1, sl1), r1). sl1 ! b = sl ! b) (Suc i) s1" by simp
  qed
  then show ?thesis by simp
qed

text \<open>A round of the recovery case goes through every entry but the first absent one.\<close>

lemma recover_round_second_null:
  assumes "m < b" and "b \<le> n" and "b < length sl" and "sl ! b = None"
  shows "\<exists>e. recover_round W n m (h, to, sl) = Inl e"
proof (cases "recover_round W n m (h, to, sl)")
  case (Inl e)
  then show ?thesis by blast
next
  case (Inr s')
  then obtain pp recovery h1 to1 sl1 recovery1 s2 where
    pp: "slice_ptr sl n = Inr pp"
    and l1: "for_loop 0 m (recover_chunk W) ((h, to, sl[n := Some (pp + W)]), recovery)
              = Inr ((h1, to1, sl1), recovery1)"
    and l2: "for_loop (m + 1) n (recover_chunk W) ((h1, to1 + W, sl1), recovery1) = Inr s2"
    by (auto simp: recover_round_def and_then_eq_Inr split: prod.splits)
  from pp assms have "b \<noteq> n" by (auto simp: slice_ptr_eq_Inr)
  with assms have bn: "b < n" by simp
  from recover_loop_keeps [OF l1, of b] assms \<open>b \<noteq> n\<close> have "sl1 ! b = None" by simp
  from recover_loop_null [of "m + 1" b n sl1 W h1 "to1 + W" recovery1] this bn assms l2
  show ?thesis by auto
qed

text \<open>
  Claim C7 says that \<^verbatim>\<open>decode\<close> detects more than one absent slice and reports a
  MultipleMissingSlices error. The code has no such error: \<^verbatim>\<open>std::find\<close> stops at the
  first null entry and nothing counts the others. With two null entries and no chunk to
  decode it returns normally; with a chunk to decode it passes the second null pointer
  to \<^verbatim>\<open>memcpy\<close>.
\<close>

theorem decode_two_missing_unreported:
  "decode 1 (\<lambda>a. None) [None, None] 1 0 0 = Inr (\<lambda>a. None, [None, None])
   \<and> decode 1 (\<lambda>a. if a < 8 then Some 0 else None) [None, Some 0, None] 2 4 1
       = Inl NullDereference"
  by (simp add: decode_def missing_index_def SIZE_MOD_def for_loop_unfold recover_round_def
        slice_ptr_def)

text \<open>
  Claim C7, as amended: at most one null entry is a precondition of the caller's (the
  comment on \<^verbatim>\<open>decode\<close> says so), not a check. With null entries at indices \<open>a < b\<close>,
  \<^verbatim>\<open>decode\<close> takes the first null entry, at some \<open>m \<le> a\<close>, for the missing slice; it
  returns normally when there is no chunk to decode, and every run with a chunk to
  decode ends in undefined behaviour, never in a report.
\<close>

theorem decode_multiple_missing_unchecked:
  assumes "length sl = n + 1" and "n + 1 < SIZE_MOD"
    and "a < b" and "b \<le> n" and "sl ! a = None" and "sl ! b = None"
  shows "\<exists>m\<le>a. missing_index sl n = Inr m \<and> sl ! m = None
           \<and> decode W h sl n to 0 = Inr (h, sl)
           \<and> (\<forall>chunks>0. \<exists>e. decode W h sl n to chunks = Inl e)"
proof -
  define m where "m = find_null sl"
  from assms have mi: "missing_index sl n = Inr m"
    by (simp add: missing_index_def m_def)
  from assms find_null_le [of a sl] have ma: "m \<le> a" by (simp add: m_def)
  with assms find_null_absent [of sl] have null: "sl ! m = None" by (simp add: m_def)
  from ma assms have mn: "m < n" by simp
  then have zero: "decode W h sl n to 0 = Inr (h, sl)"
    by (simp add: decode_def mi)
  have "\<exists>e. decode W h sl n to chunks = Inl e" if "0 < chunks" for chunks
  proof -
    from ma assms have "m < b" "b < length sl" by simp_all
    from recover_round_second_null [OF this(1) assms(4) this(2) assms(6)]
    obtain e where "recover_round W n m (h, to, sl) = Inl e" by blast
    with that mn show ?thesis
      by (simp add: decode_def mi for_loop_unfold [of 0 chunks])
  qed
  with ma mi null zero show ?thesis by blast
qed

theorem decode_multiple_missing_unchecked_witness:
  "missing_index [None, Some 0, None] 2 = Inr 0
   \<and> decode 1 (\<lambda>a. if a < 8 then Some 0 else None) [None, Some 0, None] 2 4 0
       = Inr (\<lambda>a. if a < 8 then Some 0 else None, [None, Some 0, None])
   \<and> (\<exists>e. decode 1 (\<lambda>a. if a < 8 then Some 0 else None) [None, Some 0, None] 2 4 1 = Inl e)"
  using decode_multiple_missing_unchecked
    [of "[None, Some 0, None]" 2 0 2 1 "\<lambda>a. if a < 8 then Some 0 else None" 4]
  by (auto simp: SIZE_MOD_def)

subsection \<open>Buffers that are too short\<close>

text \<open>
  Claim C9 says that \<^verbatim>\<open>encode_1\<close> and \<^verbatim>\<open>decode\<close> detect a buffer that is too short as a
  LengthMismatch error, before any read or write. The code has no such error, and the
  lengths of the slices and of the output are not even passed to it. With a parity
  slice of one byte where two are needed, \<^verbatim>\<open>encode_1\<close> writes the first round and then
  writes outside the slice; with an output of one byte where two are needed, \<^verbatim>\<open>decode\<close>
  writes outside the output.
\<close>

theorem short_buffers_undetected:
  "encode_1 1 (heap_of [1, 2, 0, 0, 0]) 0 2 [Some 2, Some 4] 1 = Inl OutOfBounds
   \<and> (\<exists>h' st. encode_full_round 1 1 (heap_of [1, 2, 0, 0, 0], 0, [Some 2, Some 4]) = Inr (h', st)
         \<and> heap_of [1, 2, 0, 0, 0] 2 = Some 0 \<and> h' 2 = Some 1)
   \<and> decode 1 (heap_of [1, 2, 0]) [Some 0, Some 1] 1 2 2 = Inl OutOfBounds"
  by (simp add: encode_1_def ida_properties_def to_size_t_def distance_def SIZE_MOD_def
        for_loop_def encode_full_round_def encode_chunk_def write_parity_def
        from_bytes_cast_def to_bytes_cast_def load_def store_def allocated_def
        slice_ptr_def heap_of_def peek_def poke_def zero_chunk_def xor_chunk_def
        decode_def missing_index_def copy_chunk_def memcpy_def upt_conv_Cons)

text \<open>
  Claim C9, as amended: the sizes of the buffers are preconditions of the caller's.
  When the input is readable, the slices hold \<open>num_chunks\<close> chunks each and share no
  byte with each other or the input, \<^verbatim>\<open>encode_1\<close> returns normally, and changes no
  allocation and no byte outside the slices. When the slices that \<^verbatim>\<open>decode\<close> reads hold
  \<open>C\<close> chunks each and the output \<open>C \<cdot> n\<close> chunks away from them, \<^verbatim>\<open>decode\<close> returns
  normally, and changes no allocation and no byte outside the output.
\<close>

theorem large_buffers_no_fault:
  "(1 \<le> n \<and> 1 \<le> W \<and> n * W < SIZE_MOD \<and> s < SIZE_MOD \<and>
    ida_properties W in_begin (in_begin + s) n = Inr p \<and>
    encode_buffers n ps (num_chunks p * W) h in_begin s \<longrightarrow>
      (\<exists>h1 sl1. encode_1 W h in_begin (in_begin + s) (map Some ps) n = Inr (p, h1, sl1) \<and>
         (\<forall>a. h1 a = None \<longleftrightarrow> h a = None) \<and>
         (\<forall>a. (\<forall>k\<le>n. a < ps ! k \<or> ps ! k + num_chunks p * W \<le> a) \<longrightarrow> h1 a = h a)))
   \<and> (n + 1 < SIZE_MOD \<and> m \<le> n + 1 \<and> slices_missing n m qs sl \<and>
      decode_buffers W n m qs C g to \<longrightarrow>
      (\<exists>h2 sl2. decode W g sl n to C = Inr (h2, sl2) \<and>
         (\<forall>a. h2 a = None \<longleftrightarrow> g a = None) \<and>
         (\<forall>a. a < to \<or> to + C * n * W \<le> a \<longrightarrow> h2 a = g a)))"
proof (intro conjI impI)
  assume a: "1 \<le> n \<and> 1 \<le> W \<and> n * W < SIZE_MOD \<and> s < SIZE_MOD \<and>
    ida_properties W in_begin (in_begin + s) n = Inr p \<and>
    encode_buffers n ps (num_chunks p * W) h in_begin s"
  then have "\<exists>h1 sl1. encode_1 W h in_begin (in_begin + s) (map Some ps) n = Inr (p, h1, sl1)
           \<and> enc_heap W n ps (num_chunks p * W) (peek h in_begin s) h (num_chunks p) 0 h1
           \<and> enc_slices W n ps (num_chunks p) 0 sl1"
    by (intro encode_1_result(1)) simp_all
  then show "\<exists>h1 sl1. encode_1 W h in_begin (in_begin + s) (map Some ps) n = Inr (p, h1, sl1) \<and>
         (\<forall>a. h1 a = None \<longleftrightarrow> h a = None) \<and>
         (\<forall>a. (\<forall>k\<le>n. a < ps ! k \<or> ps ! k + num_chunks p * W \<le> a) \<longrightarrow> h1 a = h a)"
    unfolding enc_heap_def by blast
next
  assume a: "n + 1 < SIZE_MOD \<and> m \<le> n + 1 \<and> slices_missing n m qs sl \<and>
      decode_buffers W n m qs C g to"
  then have "\<exists>h' sl'. decode W g sl n to C = Inr (h', sl')
           \<and> dec_heap W n m qs C g to C 0 h' \<and> dec_slices W n m qs C 0 C sl'"
    by (intro decode_total) simp_all
  then show "\<exists>h2 sl2. decode W g sl n to C = Inr (h2, sl2) \<and>
         (\<forall>a. h2 a = None \<longleftrightarrow> g a = None) \<and>
         (\<forall>a. a < to \<or> to + C * n * W \<le> a \<longrightarrow> h2 a = g a)"
    unfolding dec_heap_def by blast
qed

theorem large_buffers_no_fault_witness:
  "(\<exists>h1 sl1. encode_1 1 scenario 0 5 [Some 10, Some 20, Some 30] 2
       = Inr (\<lparr>full_rounds = 2, partial_round = True\<rparr>, h1, sl1))
   \<and> (\<exists>h2 sl2. decode 1 scenario [Some 10, None, Some 30] 2 40 3 = Inr (h2, sl2))"
proof -
  have "1 \<le> (2::nat) \<and> 1 \<le> (1::nat) \<and> 2 * 1 < SIZE_MOD \<and> 5 < SIZE_MOD \<and>
    ida_properties 1 0 (0 + 5) 2 = Inr \<lparr>full_rounds = 2, partial_round = True\<rparr> \<and>
    encode_buffers 2 [10, 20, 30] (num_chunks \<lparr>full_rounds = 2, partial_round = True\<rparr> * 1)
      scenario 0 5"
    using scenario_properties scenario_encode_buffers by (simp add: SIZE_MOD_def)
  moreover have "2 + 1 < SIZE_MOD \<and> 1 \<le> (2::nat) + 1 \<and>
    slices_missing 2 1 [10, 20, 30] [Some 10, None, Some 30] \<and>
    decode_buffers 1 2 1 [10, 20, 30] 3 scenario 40"
    using scenario_decode_buffers [of 1]
    by (simp add: SIZE_MOD_def slices_missing_def all_le_2 scenario_num_chunks)
  ultimately show ?thesis
    using large_buffers_no_fault [of 2 1 5 0 "\<lparr>full_rounds = 2, partial_round = True\<rparr>"
        "[10, 20, 30]" scenario 1 "[10, 20, 30]" "[Some 10, None, Some 30]" 3 scenario 40]
    by auto
qed

end
